theory Spec2Isabelle
  imports Main "HOL-Library.Word" "HOL-Library.Monad_Syntax" "HOL-Library.Multiset"
begin

unbundle bit_operations_syntax

section \<open>Constants and data\<close>

text \<open>
  A shallow embedding of go-sdbm.  A byte is an 8-bit word.  A \<open>Datum\<close> is a Go byte
  slice, which is either \<open>nil\<close> (\<open>None\<close>, the value of \<open>Nullitem\<close>) or a possibly empty
  sequence of bytes (\<open>Some bs\<close>).  A page buffer is the array \<open>[PBLKSIZ]byte\<close>, given as
  a list of bytes.  A run-time panic of the Go code (a slice or an index out of range) is
  the value \<open>None\<close> of the page operations and the error \<open>Panic\<close> of the store operations.
\<close>

type_synonym byte = "8 word"
type_synonym datum = "byte list option"
type_synonym page = "byte list"

definition BITSIZ :: nat where "BITSIZ = 8"
definition DBLKSIZ :: nat where "DBLKSIZ = 4096"
definition PBLKSIZ :: nat where "PBLKSIZ = 1024"
definition PAIRMAX :: nat where "PAIRMAX = 1008"
definition SPLTMAX :: nat where "SPLTMAX = 10"
definition SHORTSIZE :: nat where "SHORTSIZE = 2"

definition StoreREPLACE :: int where "StoreREPLACE = 1"
definition StoreSEEDUPS :: int where "StoreSEEDUPS = 2"

lemmas consts_simps = BITSIZ_def DBLKSIZ_def PBLKSIZ_def PAIRMAX_def SPLTMAX_def
  SHORTSIZE_def StoreREPLACE_def StoreSEEDUPS_def

definition Nullitem :: datum where "Nullitem = None"

text \<open>\<open>Size\<close> is \<open>len\<close>, which is 0 for the nil slice; \<open>bytes_of\<close> are the bytes a slice holds.\<close>

definition bytes_of :: "datum \<Rightarrow> byte list" where
  "bytes_of d = (case d of None \<Rightarrow> [] | Some bs \<Rightarrow> bs)"

definition Size :: "datum \<Rightarrow> nat" where
  "Size d = length (bytes_of d)"

definition bad :: "datum \<Rightarrow> bool" where
  "bad x = (x = None)"

section \<open>Hash\<close>

text \<open>The accumulator is a \<open>uint64\<close>; the result is its reading as an \<open>int64\<close>.\<close>

definition Hash :: "byte list \<Rightarrow> int" where
  "Hash data = sint (foldl (\<lambda>(hash :: 64 word) b. ucast b + 65599 * hash) 0 data)"

definition exHash :: "byte list \<Rightarrow> int" where
  "exHash item = Hash item"

section \<open>Pages\<close>

text \<open>
  \<open>go_slice buf a b\<close> is the slice expression \<open>buf[a:b]\<close>, and \<open>go_copy buf off src\<close> is
  \<open>copy(buf[off:], src)\<close>: both panic when the bounds are outside the array, and
  \<open>copy\<close> moves as many bytes as fit in the destination.
\<close>

definition go_slice :: "byte list \<Rightarrow> int \<Rightarrow> int \<Rightarrow> byte list option" where
  "go_slice buf a b =
     (if 0 \<le> a \<and> a \<le> b \<and> b \<le> int (length buf)
      then Some (take (nat (b - a)) (drop (nat a) buf)) else None)"

definition copy_at :: "byte list \<Rightarrow> nat \<Rightarrow> byte list \<Rightarrow> byte list" where
  "copy_at buf off src = take (length buf) (take off buf @ src @ drop (off + length src) buf)"

definition go_copy :: "byte list \<Rightarrow> int \<Rightarrow> byte list \<Rightarrow> byte list option" where
  "go_copy buf off src =
     (if 0 \<le> off \<and> off \<le> int (length buf) then Some (copy_at buf (nat off) src) else None)"

text \<open>
  \<open>getIno\<close> and \<open>setIno\<close> read and write the little-endian \<open>uint16\<close> at bytes \<open>2i\<close> and
  \<open>2i+1\<close>; the value is given as a natural number below 65536, and \<open>uint16\<close> arithmetic
  is written with \<open>mod 65536\<close> where the source computes in that type.
\<close>

definition getIno :: "page \<Rightarrow> nat \<Rightarrow> nat option" where
  "getIno p i =
     (if i * 2 + 2 \<le> PBLKSIZ then Some (unat (p ! (i * 2)) + 256 * unat (p ! (i * 2 + 1)))
      else None)"

definition setIno :: "page \<Rightarrow> nat \<Rightarrow> nat \<Rightarrow> page option" where
  "setIno p i v =
     (if i * 2 + 2 \<le> PBLKSIZ
      then Some (p[i * 2 := word_of_nat (v mod 256), i * 2 + 1 := word_of_nat (v div 256 mod 256)])
      else None)"

definition getN :: "page \<Rightarrow> nat option" where
  "getN p = getIno p 0"

definition setN :: "page \<Rightarrow> nat \<Rightarrow> page option" where
  "setN p v = setIno p 0 v"

definition free_off :: "page \<Rightarrow> nat \<Rightarrow> nat option" where
  "free_off p n = (if n > 0 then getIno p n else Some PBLKSIZ)"

definition FitPair :: "page \<Rightarrow> int \<Rightarrow> bool option" where
  "FitPair p need = do {
     n \<leftarrow> getN p;
     off \<leftarrow> free_off p n;
     let free = int off - (int n + 1) * int SHORTSIZE;
     let need' = need + 2 * int SHORTSIZE;
     Some (need' \<le> free)
   }"

definition PutPair :: "page \<Rightarrow> byte list \<Rightarrow> byte list \<Rightarrow> page option" where
  "PutPair p key val = do {
     n \<leftarrow> getN p;
     off0 \<leftarrow> free_off p n;
     let off1 = int off0 - int (length key);
     p1 \<leftarrow> go_copy p off1 key;
     p2 \<leftarrow> setIno p1 (n + 1) (nat (off1 mod 65536));
     let off2 = off1 - int (length val);
     p3 \<leftarrow> go_copy p2 off2 val;
     p4 \<leftarrow> setIno p3 (n + 2) (nat (off2 mod 65536));
     setN p4 ((n + 2) mod 65536)
   }"

text \<open>
  One test of \<open>seePair\<close>: the key has the length of the slot and equals its bytes.  The
  upper bound of the compared slice is computed in \<open>uint16\<close>.
\<close>

definition match_at :: "page \<Rightarrow> byte list \<Rightarrow> nat \<Rightarrow> int \<Rightarrow> bool option" where
  "match_at p key cur off =
     (if int (length key) = off - int cur then
        (case go_slice p (int cur) (int ((cur + length key mod 65536) mod 65536)) of
           None \<Rightarrow> None
         | Some bs \<Rightarrow> Some (key = bs))
      else Some False)"

function seePair_loop :: "page \<Rightarrow> nat \<Rightarrow> byte list \<Rightarrow> nat \<Rightarrow> int \<Rightarrow> nat option" where
  "seePair_loop p n key i off =
     (if i < n then
        (case getIno p i of
           None \<Rightarrow> None
         | Some cur \<Rightarrow>
             (case match_at p key cur off of
                None \<Rightarrow> None
              | Some True \<Rightarrow> Some i
              | Some False \<Rightarrow>
                  (case getIno p (i + 1) of
                     None \<Rightarrow> None
                   | Some off' \<Rightarrow> seePair_loop p n key (i + 2) (int off'))))
      else Some 0)"
  by pat_completeness auto
termination
  by (relation "measure (\<lambda>(p, n, key, i, off). n - i)") auto

definition seePair :: "page \<Rightarrow> nat \<Rightarrow> byte list \<Rightarrow> nat option" where
  "seePair p n key = seePair_loop p n key 1 (int PBLKSIZ)"

definition GetPair :: "page \<Rightarrow> byte list \<Rightarrow> datum option" where
  "GetPair p key = do {
     n \<leftarrow> getN p;
     if n = 0 then Some Nullitem else do {
       i \<leftarrow> seePair p n key;
       if i = 0 then Some Nullitem else do {
         start \<leftarrow> getIno p (i + 1);
         end \<leftarrow> getIno p i;
         val \<leftarrow> go_slice p (int start) (int end);
         Some (Some val)
       }
     }
   }"

definition DupPair :: "page \<Rightarrow> byte list \<Rightarrow> bool option" where
  "DupPair p key = do {
     n \<leftarrow> getN p;
     if n = 0 then Some False else do {
       i \<leftarrow> seePair p n key;
       Some (i > 0)
     }
   }"

definition GetNKey :: "page \<Rightarrow> int \<Rightarrow> datum option" where
  "GetNKey p num0 = (let num = num0 * 2 - 1 in do {
     n \<leftarrow> getN p;
     if n = 0 \<or> num > int n then Some Nullitem
     else if num < 0 then None
     else do {
       off \<leftarrow> (if num > 1 then getIno p (nat (num - 1)) else Some PBLKSIZ);
       start \<leftarrow> getIno p (nat num);
       key \<leftarrow> go_slice p (int start) (int off);
       Some (Some key)
     }
   })"

text \<open>The loop of \<open>DelPair\<close> that moves the offsets of the later slots two places down.\<close>

function DelPair_shift :: "page \<Rightarrow> nat \<Rightarrow> nat \<Rightarrow> int \<Rightarrow> page option" where
  "DelPair_shift p i n zoo =
     (if int i < int n - 1 then
        (case getIno p (i + 2) of
           None \<Rightarrow> None
         | Some x \<Rightarrow>
             (case setIno p i ((x + nat (zoo mod 65536)) mod 65536) of
                None \<Rightarrow> None
              | Some p' \<Rightarrow> DelPair_shift p' (i + 1) n zoo))
      else Some p)"
  by pat_completeness auto
termination
  by (relation "measure (\<lambda>(p, i, n, zoo). n - i)") auto

definition DelPair :: "page \<Rightarrow> byte list \<Rightarrow> (page \<times> bool) option" where
  "DelPair p key = do {
     n \<leftarrow> getN p;
     if n = 0 then Some (p, False) else do {
       i \<leftarrow> seePair p n key;
       if i = 0 then Some (p, False) else do {
         p1 \<leftarrow> (if int i < int n - 1 then do {
                  dst \<leftarrow> (if i = 1 then Some PBLKSIZ else getIno p (i - 1));
                  src \<leftarrow> getIno p (i + 1);
                  let zoo = int dst - int src;
                  a \<leftarrow> getIno p (i + 1);
                  b \<leftarrow> getIno p n;
                  let m = int ((a + 65536 - b) mod 65536);
                  _ \<leftarrow> go_slice p (int dst - m) (int (length p));
                  moved \<leftarrow> go_slice p (int src - m) (int (length p));
                  p' \<leftarrow> go_copy p (int dst - m) moved;
                  DelPair_shift p' i n zoo
                } else Some p);
         n' \<leftarrow> getN p1;
         p2 \<leftarrow> setN p1 ((n' + 65536 - 2) mod 65536);
         Some (p2, True)
       }
     }
   }"

definition zero_page :: page where
  "zero_page = replicate PBLKSIZ 0"

text \<open>
  The loop of \<open>SplPage\<close> over the copy \<open>cur\<close> of the page; its counter \<open>n\<close> is a
  \<open>uint16\<close>, so \<open>n -= 2\<close> wraps around.
\<close>

function SplPage_loop ::
  "page \<Rightarrow> int \<Rightarrow> page \<Rightarrow> page \<Rightarrow> nat \<Rightarrow> nat \<Rightarrow> nat \<Rightarrow> (page \<times> page) option" where
  "SplPage_loop cur sbit p newPag i n off =
     (if n > 0 then
        (case getIno cur i of
           None \<Rightarrow> None
         | Some keyOff \<Rightarrow>
        (case getIno cur (i + 1) of
           None \<Rightarrow> None
         | Some valOff \<Rightarrow>
        (case go_slice cur (int keyOff) (int off) of
           None \<Rightarrow> None
         | Some key \<Rightarrow>
        (case go_slice cur (int valOff) (int keyOff) of
           None \<Rightarrow> None
         | Some val \<Rightarrow>
             (if exHash key AND sbit \<noteq> 0 then
                (case PutPair newPag key val of
                   None \<Rightarrow> None
                 | Some newPag' \<Rightarrow>
                     SplPage_loop cur sbit p newPag' (i + 2) ((n + 65536 - 2) mod 65536) valOff)
              else
                (case PutPair p key val of
                   None \<Rightarrow> None
                 | Some p' \<Rightarrow>
                     SplPage_loop cur sbit p' newPag (i + 2) ((n + 65536 - 2) mod 65536) valOff))))))
      else Some (p, newPag))"
  by pat_completeness auto
termination
  by (relation "measure (\<lambda>(cur, sbit, p, newPag, i, n, off). PBLKSIZ - i)")
    (auto simp: getIno_def PBLKSIZ_def split: if_splits)

text \<open>\<open>SplPage\<close> returns the page \<open>p\<close> and the page \<open>newPag\<close> as it leaves them.\<close>

definition SplPage :: "page \<Rightarrow> int \<Rightarrow> (page \<times> page) option" where
  "SplPage p sbit = do {
     n \<leftarrow> getIno p 0;
     SplPage_loop p sbit zero_page zero_page 1 n PBLKSIZ
   }"

function ChkPage_loop :: "page \<Rightarrow> nat \<Rightarrow> int \<Rightarrow> nat \<Rightarrow> bool option" where
  "ChkPage_loop p i n off =
     (if n > 0 then
        (case getIno p i of
           None \<Rightarrow> None
         | Some keyOff \<Rightarrow>
        (case getIno p (i + 1) of
           None \<Rightarrow> None
         | Some valOff \<Rightarrow>
             if keyOff > off \<or> valOff > off \<or> valOff > keyOff then Some False
             else ChkPage_loop p (i + 2) (n - 2) valOff))
      else Some True)"
  by pat_completeness auto
termination
  by (relation "measure (\<lambda>(p, i, n, off). nat n)") auto

definition ChkPage :: "page \<Rightarrow> bool option" where
  "ChkPage p = do {
     n \<leftarrow> getN p;
     if n > PBLKSIZ div SHORTSIZE then Some False
     else if n > 0 then ChkPage_loop p 1 (int n) PBLKSIZ
     else Some True
   }"

section \<open>Files\<close>

text \<open>
  The two files are the bytes they hold and the offset of the descriptor.  Every system
  call (\<open>Seek\<close>, \<open>Read\<close>, \<open>Write\<close>) is appended to \<open>log\<close>, and takes the next flag of
  the schedule \<open>faults\<close>: \<open>True\<close> makes the call fail with an error of the operating system;
  with an empty schedule no call fails.  \<open>Read\<close> at or after the end of the file returns
  \<open>io.EOF\<close> and leaves the buffer as it is; a read that meets the end of the file fills
  the front of the buffer only.  \<open>Write\<close> after the end of the file fills the gap with
  zero bytes.
\<close>

datatype fid = DirF | PagF

datatype event = EvSeek fid int | EvRead fid nat | EvWrite fid nat "byte list"

datatype error = ErrInvalidArgument | ErrInvalidPage | ErrDBMRDOnly | IOError string fid | Panic

datatype rres = RdOk "byte list" | RdEOF | RdErr

record osfile =
  fdata :: "byte list"
  fpos :: nat

record dbm =
  dirf :: osfile
  pagf :: osfile
  rdonly :: bool
  maxbno :: nat
  curbit :: nat
  hmask :: int
  blkptr :: int
  keyptr :: int
  pagbno :: int
  pag :: page
  dirbno :: int
  dirbuf :: "byte list"
  faults :: "bool list"
  log :: "event list"

definition getf :: "dbm \<Rightarrow> fid \<Rightarrow> osfile" where
  "getf s f = (case f of DirF \<Rightarrow> dirf s | PagF \<Rightarrow> pagf s)"

definition setf :: "dbm \<Rightarrow> fid \<Rightarrow> osfile \<Rightarrow> dbm" where
  "setf s f fl = (case f of DirF \<Rightarrow> s\<lparr>dirf := fl\<rparr> | PagF \<Rightarrow> s\<lparr>pagf := fl\<rparr>)"

definition syscall :: "dbm \<Rightarrow> event \<Rightarrow> bool \<times> dbm" where
  "syscall s ev =
     (case faults s of
        [] \<Rightarrow> (False, s\<lparr>log := log s @ [ev]\<rparr>)
      | b # bs \<Rightarrow> (b, s\<lparr>faults := bs, log := log s @ [ev]\<rparr>))"

definition Seek :: "dbm \<Rightarrow> fid \<Rightarrow> int \<Rightarrow> dbm \<times> bool" where
  "Seek s f off =
     (case syscall s (EvSeek f off) of (failed, s1) \<Rightarrow>
        if failed \<or> off < 0 then (s1, False)
        else (setf s1 f ((getf s1 f)\<lparr>fpos := nat off\<rparr>), True))"

definition Read :: "dbm \<Rightarrow> fid \<Rightarrow> nat \<Rightarrow> byte list \<Rightarrow> dbm \<times> rres" where
  "Read s f len buf =
     (case syscall s (EvRead f (fpos (getf s f))) of (failed, s1) \<Rightarrow>
        let fl = getf s1 f in
        if failed then (s1, RdErr)
        else if length (fdata fl) \<le> fpos fl then (s1, RdEOF)
        else
          let m = min len (length (fdata fl) - fpos fl) in
          (setf s1 f (fl\<lparr>fpos := fpos fl + m\<rparr>),
           RdOk (take m (drop (fpos fl) (fdata fl)) @ drop m buf)))"

definition write_at :: "byte list \<Rightarrow> nat \<Rightarrow> byte list \<Rightarrow> byte list" where
  "write_at data pos buf =
     take pos (data @ replicate (pos - length data) 0) @ buf @ drop (pos + length buf) data"

definition Write :: "dbm \<Rightarrow> fid \<Rightarrow> byte list \<Rightarrow> dbm \<times> bool" where
  "Write s f buf =
     (case syscall s (EvWrite f (fpos (getf s f)) buf) of (failed, s1) \<Rightarrow>
        let fl = getf s1 f in
        if failed then (s1, False)
        else (setf s1 f (fl\<lparr>fdata := write_at (fdata fl) (fpos fl) buf,
                            fpos := fpos fl + length buf\<rparr>), True))"

definition offPag :: "int \<Rightarrow> int" where
  "offPag off = off * int PBLKSIZ"

definition offDir :: "int \<Rightarrow> int" where
  "offDir off = off * int DBLKSIZ"

definition seekWrite :: "dbm \<Rightarrow> fid \<Rightarrow> int \<Rightarrow> byte list \<Rightarrow> dbm \<times> error option" where
  "seekWrite s f offset buf =
     (case Seek s f offset of
        (s1, False) \<Rightarrow> (s1, Some (IOError ''seek'' f))
      | (s1, True) \<Rightarrow>
          (case Write s1 f buf of
             (s2, False) \<Rightarrow> (s2, Some (IOError ''write'' f))
           | (s2, True) \<Rightarrow> (s2, None)))"

text \<open>
  \<open>seekRead\<close> returns the buffer as the read leaves it; \<open>len\<close> is the size of the array
  read into.  An end of file is not an error here.
\<close>

definition seekRead :: "dbm \<Rightarrow> fid \<Rightarrow> int \<Rightarrow> nat \<Rightarrow> byte list \<Rightarrow> dbm \<times> (error + byte list)" where
  "seekRead s f offset len buf =
     (case Seek s f offset of
        (s1, False) \<Rightarrow> (s1, Inl (IOError ''seek'' f))
      | (s1, True) \<Rightarrow>
          (case Read s1 f len buf of
             (s2, RdErr) \<Rightarrow> (s2, Inl (IOError ''read'' f))
           | (s2, RdEOF) \<Rightarrow> (s2, Inr buf)
           | (s2, RdOk buf') \<Rightarrow> (s2, Inr buf')))"

section \<open>The directory\<close>

definition masks :: "int list" where
  "masks = [0, 1, 3, 7, 15, 31, 63, 127, 255, 511, 1023, 2047, 4095, 8191, 16383, 32767,
     65535, 131071, 262143, 524287, 1048575, 2097151, 4194303, 8388607, 16777215, 33554431,
     67108863, 134217727, 268435455, 536870911, 1073741823, 2147483647]"

text \<open>
  A directory bit number is never negative (the walk starts at 0 and goes from \<open>d\<close> to
  \<open>2d+1\<close> or \<open>2d+2\<close>), so it is a natural number here.
\<close>

text \<open>
  The first lines of \<open>getDBit\<close> and of \<open>setDBit\<close>: if directory block \<open>dirb\<close> is not the
  one in the buffer, read it and make it the current one.
\<close>

definition dir_load :: "dbm \<Rightarrow> nat \<Rightarrow> dbm \<times> error option" where
  "dir_load s dirb =
     (if int dirb \<noteq> dirbno s then
        (case seekRead s DirF (offDir (int dirb)) DBLKSIZ (dirbuf s) of
           (s1, Inl e) \<Rightarrow> (s1, Some e)
         | (s1, Inr buf) \<Rightarrow> (s1\<lparr>dirbuf := buf, dirbno := int dirb\<rparr>, None))
      else (s, None))"

definition getDBit :: "dbm \<Rightarrow> nat \<Rightarrow> dbm \<times> bool" where
  "getDBit s dbit =
     (let c = dbit div BITSIZ; dirb = c div DBLKSIZ in
      case dir_load s dirb of
        (s2, Some e) \<Rightarrow> (s2, False)
      | (s2, None) \<Rightarrow> (s2, (dirbuf s2 ! (c mod DBLKSIZ)) AND push_bit (dbit mod BITSIZ) 1 \<noteq> 0))"

definition setDBit :: "dbm \<Rightarrow> nat \<Rightarrow> dbm \<times> error option" where
  "setDBit s dbit =
     (let c = dbit div BITSIZ; dirb = c div DBLKSIZ in
      case dir_load s dirb of
        (s2, Some e) \<Rightarrow> (s2, Some e)
      | (s2, None) \<Rightarrow>
          let s3 = s2\<lparr>dirbuf := (dirbuf s2)[c mod DBLKSIZ :=
                        (dirbuf s2 ! (c mod DBLKSIZ)) OR push_bit (dbit mod BITSIZ) 1]\<rparr>;
              s4 = (if dbit \<ge> maxbno s3 then s3\<lparr>maxbno := maxbno s3 + DBLKSIZ * BITSIZ\<rparr> else s3)
          in seekWrite s4 DirF (offDir (int dirb)) (dirbuf s4))"

text \<open>
  The fields of the handle that no system call touches, and the bytes of the two files.
\<close>

definition core :: "dbm \<Rightarrow> bool \<times> nat \<times> nat \<times> int \<times> int \<times> int \<times> int \<times> page \<times> int \<times> byte list" where
  "core s = (rdonly s, maxbno s, curbit s, hmask s, blkptr s, keyptr s, pagbno s, pag s,
     dirbno s, dirbuf s)"

definition disk :: "dbm \<Rightarrow> byte list \<times> byte list" where
  "disk s = (fdata (dirf s), fdata (pagf s))"

lemma core_syscall: "syscall s ev = (b, s') \<Longrightarrow> core s' = core s"
  by (auto simp: syscall_def core_def split: list.splits)

lemma disk_syscall: "syscall s ev = (b, s') \<Longrightarrow> disk s' = disk s"
  by (auto simp: syscall_def disk_def split: list.splits)

lemma core_setf: "core (setf s f fl) = core s"
  by (simp add: setf_def core_def split: fid.splits)

lemma core_Seek: "Seek s f off = (s', b) \<Longrightarrow> core s' = core s"
  by (auto simp: Seek_def core_setf split: prod.splits if_splits dest: core_syscall)

lemma core_Read: "Read s f len buf = (s', r) \<Longrightarrow> core s' = core s"
  by (auto simp: Read_def Let_def core_setf split: prod.splits if_splits dest: core_syscall)

lemma core_Write: "Write s f buf = (s', b) \<Longrightarrow> core s' = core s"
  by (auto simp: Write_def Let_def core_setf split: prod.splits if_splits dest: core_syscall)

lemma core_seekRead: "seekRead s f off len buf = (s', r) \<Longrightarrow> core s' = core s"
  by (auto simp: seekRead_def split: prod.splits bool.splits rres.splits
      dest!: core_Seek core_Read)

lemma core_seekWrite: "seekWrite s f off buf = (s', r) \<Longrightarrow> core s' = core s"
  by (auto simp: seekWrite_def split: prod.splits bool.splits dest!: core_Seek core_Write)

lemma maxbno_dir_load: "dir_load s dirb = (s', r) \<Longrightarrow> maxbno s' = maxbno s"
  by (auto simp: dir_load_def core_def split: prod.splits sum.splits if_splits
      dest!: core_seekRead)

lemma maxbno_getDBit: "getDBit s dbit = (s', b) \<Longrightarrow> maxbno s' = maxbno s"
  by (auto simp: getDBit_def Let_def split: prod.splits option.splits dest!: maxbno_dir_load)

section \<open>The store\<close>

text \<open>The loop of \<open>getPage\<close>: the walk down the trie along the bits of the hash.\<close>

function getPage_walk :: "int \<Rightarrow> dbm \<Rightarrow> nat \<Rightarrow> nat \<Rightarrow> dbm \<times> nat \<times> nat" where
  "getPage_walk hash s dbit hbit =
     (if dbit < maxbno s then
        (case getDBit s dbit of
           (s1, True) \<Rightarrow>
             getPage_walk hash s1
               (if hash AND push_bit hbit 1 \<noteq> 0 then 2 * dbit + 2 else 2 * dbit + 1) (hbit + 1)
         | (s1, False) \<Rightarrow> (s1, dbit, hbit))
      else (s, dbit, hbit))"
  by pat_completeness auto
termination
  by (relation "measure (\<lambda>(hash, s, dbit, hbit). maxbno s - dbit)")
    (auto dest: maxbno_getDBit [OF sym])

definition getPage :: "dbm \<Rightarrow> int \<Rightarrow> dbm \<times> error option" where
  "getPage s hash =
     (case getPage_walk hash s 0 0 of (s1, dbit, hbit) \<Rightarrow>
        let s2 = s1\<lparr>curbit := dbit\<rparr> in
        if hbit \<ge> length masks then (s2, Some Panic)
        else
          let s3 = s2\<lparr>hmask := masks ! hbit\<rparr>;
              pagb = hash AND hmask s3
          in
            if pagb \<noteq> pagbno s3 then
              (case seekRead s3 PagF (offPag pagb) PBLKSIZ (pag s3) of
                 (s4, Inl e) \<Rightarrow> (s4, Some e)
               | (s4, Inr buf) \<Rightarrow>
                   let s5 = s4\<lparr>pag := buf\<rparr> in
                   (case ChkPage (pag s5) of
                      None \<Rightarrow> (s5, Some Panic)
                    | Some False \<Rightarrow> (s5, Some ErrInvalidPage)
                    | Some True \<Rightarrow> (s5\<lparr>pagbno := pagb\<rparr>, None)))
            else (s3, None))"

definition Fetch :: "dbm \<Rightarrow> datum \<Rightarrow> dbm \<times> (error + datum)" where
  "Fetch s key =
     (if bad key then (s, Inl ErrInvalidArgument)
      else
        let hash = exHash (bytes_of key) in
        case getPage s hash of
          (s1, Some e) \<Rightarrow> (s1, Inl e)
        | (s1, None) \<Rightarrow>
            (case GetPair (pag s1) (bytes_of key) of
               None \<Rightarrow> (s1, Inl Panic)
             | Some d \<Rightarrow> (s1, Inr d)))"

definition Delete :: "dbm \<Rightarrow> datum \<Rightarrow> dbm \<times> (error + bool)" where
  "Delete s key =
     (if bad key then (s, Inl ErrInvalidArgument)
      else if rdonly s then (s, Inl ErrDBMRDOnly)
      else
        let hash = exHash (bytes_of key) in
        case getPage s hash of
          (s1, Some e) \<Rightarrow> (s1, Inl e)
        | (s1, None) \<Rightarrow>
            (case DelPair (pag s1) (bytes_of key) of
               None \<Rightarrow> (s1, Inl Panic)
             | Some (p, False) \<Rightarrow> (s1\<lparr>pag := p\<rparr>, Inr False)
             | Some (p, True) \<Rightarrow>
                 let s2 = s1\<lparr>pag := p\<rparr> in
                 (case seekWrite s2 PagF (offPag (pagbno s2)) (pag s2) of
                    (s3, Some e) \<Rightarrow> (s3, Inl e)
                  | (s3, None) \<Rightarrow> (s3, Inr True))))"

text \<open>
  One pass of the loop of \<open>makeRoom\<close> up to the marking of the split: split the page,
  write one of the two pages, set the directory bit.
\<close>

definition split_step :: "int \<Rightarrow> dbm \<Rightarrow> dbm \<times> error option" where
  "split_step hash s =
     (case SplPage (pag s) (hmask s + 1) of
        None \<Rightarrow> (s, Some Panic)
      | Some (p', newPag) \<Rightarrow>
          let s1 = s\<lparr>pag := p'\<rparr>;
              newp = (hash AND hmask s1) OR (hmask s1 + 1)
          in
            case (if hash AND (hmask s1 + 1) \<noteq> 0 then
                    (case seekWrite s1 PagF (offPag (pagbno s1)) (pag s1) of
                       (s2, Some e) \<Rightarrow> (s2, Some e)
                     | (s2, None) \<Rightarrow> (s2\<lparr>pagbno := newp, pag := newPag\<rparr>, None))
                  else seekWrite s1 PagF (offPag newp) newPag) of
              (s3, Some e) \<Rightarrow> (s3, Some e)
            | (s3, None) \<Rightarrow> setDBit s3 (curbit s3))"

text \<open>
  The loop \<open>for smax--; smax > 0; smax--\<close> of \<open>makeRoom\<close>, by the number of passes that
  are left.
\<close>

fun makeRoom_loop :: "nat \<Rightarrow> int \<Rightarrow> int \<Rightarrow> dbm \<Rightarrow> dbm \<times> error option" where
  "makeRoom_loop 0 hash need s = (s, None)"
| "makeRoom_loop (Suc smax) hash need s =
     (case split_step hash s of
        (s1, Some e) \<Rightarrow> (s1, Some e)
      | (s1, None) \<Rightarrow>
          (case FitPair (pag s1) need of
             None \<Rightarrow> (s1, Some Panic)
           | Some True \<Rightarrow> (s1, None)
           | Some False \<Rightarrow>
               let s2 = s1\<lparr>curbit := (if hash AND (hmask s1 + 1) \<noteq> 0
                                       then 2 * curbit s1 + 2 else 2 * curbit s1 + 1)\<rparr>;
                   s3 = s2\<lparr>hmask := hmask s2 OR (hmask s2 + 1)\<rparr>
               in
                 (case seekWrite s3 PagF (offPag (pagbno s3)) (pag s3) of
                    (s4, Some e) \<Rightarrow> (s4, Some e)
                  | (s4, None) \<Rightarrow> makeRoom_loop smax hash need s4)))"

definition makeRoom :: "dbm \<Rightarrow> int \<Rightarrow> int \<Rightarrow> dbm \<times> error option" where
  "makeRoom s hash need = makeRoom_loop (SPLTMAX - 1) hash need s"

text \<open>
  \<open>Store\<close> in two parts.  \<open>Store_room\<close> is the function up to the point where room
  for the pair has been looked for: it gives either what \<open>Store\<close> returns early (\<open>Inl\<close>) or
  the handle with which the function goes on (\<open>Inr\<close>).  \<open>Store\<close> then puts the pair and
  writes the page.
\<close>

definition Store_room :: "dbm \<Rightarrow> datum \<Rightarrow> datum \<Rightarrow> int \<Rightarrow> (dbm \<times> (error + bool)) + dbm" where
  "Store_room s key val flags =
     (if bad key then Inl (s, Inl ErrInvalidArgument)
      else if rdonly s then Inl (s, Inl ErrDBMRDOnly)
      else
        let need = int (Size key + Size val) in
        if need < 0 \<or> need > int PAIRMAX then Inl (s, Inl ErrInvalidArgument)
        else
          let hash = exHash (bytes_of key) in
          case getPage s hash of
            (s1, Some e) \<Rightarrow> Inl (s1, Inl e)
          | (s1, None) \<Rightarrow>
              (case (if flags = StoreREPLACE then
                       (case DelPair (pag s1) (bytes_of key) of
                          None \<Rightarrow> Inl (s1, Inl Panic)
                        | Some (p, _) \<Rightarrow> Inr (s1\<lparr>pag := p\<rparr>))
                     else if flags = StoreSEEDUPS then
                       (case DupPair (pag s1) (bytes_of key) of
                          None \<Rightarrow> Inl (s1, Inl Panic)
                        | Some True \<Rightarrow> Inl (s1, Inr True)
                        | Some False \<Rightarrow> Inr s1)
                     else Inr s1) of
                 Inl r \<Rightarrow> Inl r
               | Inr s2 \<Rightarrow>
                   (case (case FitPair (pag s2) need of
                            None \<Rightarrow> (s2, Some Panic)
                          | Some True \<Rightarrow> (s2, None)
                          | Some False \<Rightarrow> makeRoom s2 hash need) of
                      (s3, Some e) \<Rightarrow> Inl (s3, Inl e)
                    | (s3, None) \<Rightarrow> Inr s3)))"

definition Store :: "dbm \<Rightarrow> datum \<Rightarrow> datum \<Rightarrow> int \<Rightarrow> dbm \<times> (error + bool)" where
  "Store s key val flags =
     (case Store_room s key val flags of
        Inl r \<Rightarrow> r
      | Inr s3 \<Rightarrow>
          (case PutPair (pag s3) (bytes_of key) (bytes_of val) of
             None \<Rightarrow> (s3, Inl Panic)
           | Some p \<Rightarrow>
               let s4 = s3\<lparr>pag := p\<rparr> in
               (case seekWrite s4 PagF (offPag (pagbno s4)) (pag s4) of
                  (s5, Some e) \<Rightarrow> (s5, Inl e)
                | (s5, None) \<Rightarrow> (s5, Inr True))))"

lemma Read_ok_pag:
  "Read s PagF len buf = (s', RdOk b) \<Longrightarrow> 0 < len \<Longrightarrow>
     fdata (pagf s') = fdata (pagf s) \<and> fpos (pagf s) < fpos (pagf s') \<and>
     fpos (pagf s') \<le> length (fdata (pagf s)) \<and> core s' = core s"
  by (auto simp: Read_def Let_def syscall_def setf_def getf_def core_def split: prod.splits if_splits list.splits)

lemma Seek_pag:
  "Seek s PagF off = (s', b) \<Longrightarrow> fdata (pagf s') = fdata (pagf s) \<and> core s' = core s"
  by (auto simp: Seek_def Let_def syscall_def setf_def getf_def core_def split: prod.splits if_splits list.splits)

definition getNext_measure :: "dbm \<Rightarrow> nat" where
  "getNext_measure s =
     (if pagbno s \<noteq> blkptr s then length (fdata (pagf s)) + 1 else 0)
     + (length (fdata (pagf s)) - fpos (pagf s))"

text \<open>
  The loop of \<open>getNext\<close>.  It ends because every page read moves the descriptor on,
  and the file is sought at most once, in the first pass.
\<close>

function getNext :: "dbm \<Rightarrow> dbm \<times> (error + datum)" where
  "getNext s =
     (let s1 = s\<lparr>keyptr := keyptr s + 1\<rparr> in
      case GetNKey (pag s1) (keyptr s1) of
        None \<Rightarrow> (s1, Inl Panic)
      | Some (Some key) \<Rightarrow> (s1, Inr (Some key))
      | Some None \<Rightarrow>
          let s2 = s1\<lparr>keyptr := 0\<rparr> in
          (case (if pagbno s2 \<noteq> blkptr s2
                 then Seek (s2\<lparr>blkptr := blkptr s2 + 1\<rparr>) PagF (offPag (blkptr s2 + 1))
                 else (s2, True)) of
             (s3, False) \<Rightarrow> (s3, Inl (IOError ''seek'' PagF))
           | (s3, True) \<Rightarrow>
               let s4 = s3\<lparr>pagbno := blkptr s3\<rparr> in
               (case Read s4 PagF PBLKSIZ (pag s4) of
                  (s5, RdEOF) \<Rightarrow> (s5, Inr Nullitem)
                | (s5, RdErr) \<Rightarrow> (s5, Inl (IOError ''read'' PagF))
                | (s5, RdOk buf) \<Rightarrow>
                    let s6 = s5\<lparr>pag := buf\<rparr> in
                    (case ChkPage (pag s6) of
                       None \<Rightarrow> (s6, Inl Panic)
                     | Some False \<Rightarrow> (s6, Inl ErrInvalidPage)
                     | Some True \<Rightarrow> getNext s6))))"
  by pat_completeness auto
termination
  apply (relation "measure getNext_measure")
   apply simp
  apply (auto simp: getNext_measure_def PBLKSIZ_def core_def split: if_splits dest!: Read_ok_pag [OF sym] Seek_pag [OF sym])
  done
definition FirstKey :: "dbm \<Rightarrow> dbm \<times> (error + datum)" where
  "FirstKey s =
     (case seekRead s PagF (offPag 0) PBLKSIZ (pag s) of
        (s1, Inl e) \<Rightarrow> (s1, Inl e)
      | (s1, Inr buf) \<Rightarrow> getNext (s1\<lparr>pag := buf, pagbno := 0, blkptr := 0, keyptr := 0\<rparr>))"

definition NextKey :: "dbm \<Rightarrow> dbm \<times> (error + datum)" where
  "NextKey s = getNext s"

text \<open>
  The handle as \<open>Prep\<close> leaves it after opening a directory file and a page file with the
  given bytes: \<open>dirbno\<close> is 0 for an empty directory file and -1 otherwise, \<open>pagbno\<close> is -1,
  \<open>maxbno\<close> is the size of the directory file in bits, and the buffers are zero.
\<close>

definition opened :: "byte list \<Rightarrow> byte list \<Rightarrow> bool \<Rightarrow> dbm" where
  "opened dir_bytes pag_bytes ro =
     \<lparr> dirf = \<lparr>fdata = dir_bytes, fpos = 0\<rparr>,
       pagf = \<lparr>fdata = pag_bytes, fpos = 0\<rparr>,
       rdonly = ro,
       maxbno = length dir_bytes * BITSIZ,
       curbit = 0, hmask = 0, blkptr = 0, keyptr = 0,
       pagbno = - 1,
       pag = zero_page,
       dirbno = (if length dir_bytes = 0 then 0 else - 1),
       dirbuf = replicate DBLKSIZ 0,
       faults = [],
       log = [] \<rparr>"

section \<open>Observations of a run\<close>

text \<open>The write calls of a log, and what \<open>Fetch\<close> is claimed to leave alone.\<close>

fun is_write :: "event \<Rightarrow> bool" where
  "is_write (EvWrite f off bs) = True"
| "is_write (EvSeek f off) = False"
| "is_write (EvRead f off) = False"

definition writes :: "event list \<Rightarrow> event list" where
  "writes evs = filter is_write evs"

definition kept :: "dbm \<Rightarrow> (byte list \<times> byte list) \<times> event list \<times> bool \<times> nat \<times> int \<times> int" where
  "kept s = (disk s, writes (log s), rdonly s, maxbno s, blkptr s, keyptr s)"

text \<open>The hash as the specification words it: a polynomial in 65599, reduced modulo
  \<open>2^64\<close> and read as a signed 64-bit number.\<close>

definition hash_poly :: "byte list \<Rightarrow> nat" where
  "hash_poly data = foldl (\<lambda>h b. 65599 * h + unat b) 0 data"

definition as_signed64 :: "nat \<Rightarrow> int" where
  "as_signed64 x = (if x mod 2 ^ 64 < 2 ^ 63 then int (x mod 2 ^ 64) else int (x mod 2 ^ 64) - 2 ^ 64)"


section \<open>The pairs of a page\<close>

text \<open>
  What a page holds, read off its bytes: \<open>ino p i\<close> is slot \<open>i\<close> of the offset table,
  pair \<open>j\<close> (counted from 0) has its key in \<open>[koff p j, endo p j)\<close> and its value in
  \<open>[voff p j, koff p j)\<close>, and \<open>pairs p\<close> lists the pairs in slot order.  A page is
  well formed when its slot count is even, the offsets go down from \<open>PBLKSIZ\<close>, and the
  offset table ends below the lowest data byte.
\<close>

definition ino :: "page \<Rightarrow> nat \<Rightarrow> nat" where
  "ino p i = unat (p ! (i * 2)) + 256 * unat (p ! (i * 2 + 1))"

definition npairs :: "page \<Rightarrow> nat" where
  "npairs p = ino p 0 div 2"

definition endo :: "page \<Rightarrow> nat \<Rightarrow> nat" where
  "endo p j = (if j = 0 then PBLKSIZ else ino p (2 * j))"

definition koff :: "page \<Rightarrow> nat \<Rightarrow> nat" where
  "koff p j = ino p (2 * j + 1)"

definition voff :: "page \<Rightarrow> nat \<Rightarrow> nat" where
  "voff p j = ino p (2 * j + 2)"

definition pair_at :: "page \<Rightarrow> nat \<Rightarrow> byte list \<times> byte list" where
  "pair_at p j = (take (endo p j - koff p j) (drop (koff p j) p),
                  take (koff p j - voff p j) (drop (voff p j) p))"

definition pairs :: "page \<Rightarrow> (byte list \<times> byte list) list" where
  "pairs p = map (pair_at p) [0..<npairs p]"

definition wf_page :: "page \<Rightarrow> bool" where
  "wf_page p \<longleftrightarrow>
     length p = PBLKSIZ \<and> even (ino p 0) \<and> ino p 0 * 2 + 2 \<le> endo p (npairs p) \<and>
     list_all (\<lambda>j. voff p j \<le> koff p j \<and> koff p j \<le> endo p j) [0..<npairs p]"

definition used :: "(byte list \<times> byte list) list \<Rightarrow> nat" where
  "used ps = sum_list (map (\<lambda>(k, v). length k + length v + 4) ps)"

definition dsize :: "(byte list \<times> byte list) list \<Rightarrow> nat" where
  "dsize ps = sum_list (map (\<lambda>(k, v). length k + length v) ps)"

fun first_match :: "byte list \<Rightarrow> (byte list \<times> byte list) list \<Rightarrow> nat option" where
  "first_match key [] = None"
| "first_match key (kv # ps) =
     (if fst kv = key then Some 0 else map_option Suc (first_match key ps))"

text \<open>The test of \<open>SplPage\<close> that sends a pair to the new page.\<close>

definition goes_new :: "int \<Rightarrow> byte list \<times> byte list \<Rightarrow> bool" where
  "goes_new sbit kv = (exHash (fst kv) AND sbit \<noteq> 0)"

text \<open>The page that holds the given pairs, put one after the other into an empty page.\<close>

definition page_of :: "(byte list \<times> byte list) list \<Rightarrow> page" where
  "page_of ps = foldl (\<lambda>p kv. the (PutPair p (fst kv) (snd kv))) zero_page ps"

section \<open>The first directory block\<close>

text \<open>
  The trie node at depth \<open>h\<close> on the way of a hash, the first block of the directory as
  the store sees it (a directory file without bytes counts as a block of zeros), and its
  bits.  The directory is in order when the buffer has its size, the file is empty with
  \<open>maxbno = 0\<close> and block 0 cached, or holds its first block whole with \<open>maxbno\<close>
  covering it, a cached block 0 equals the file, and within the first block a node is
  marked split only if its parent is.
\<close>

fun trie_node :: "int \<Rightarrow> nat \<Rightarrow> nat" where
  "trie_node hash 0 = 0"
| "trie_node hash (Suc h) =
     (if hash AND push_bit h 1 \<noteq> 0 then 2 * trie_node hash h + 2 else 2 * trie_node hash h + 1)"

definition dir0 :: "dbm \<Rightarrow> byte list" where
  "dir0 s = (if fdata (dirf s) = [] then replicate DBLKSIZ 0 else take DBLKSIZ (fdata (dirf s)))"

definition dbit0 :: "dbm \<Rightarrow> nat \<Rightarrow> bool" where
  "dbit0 s c = (dir0 s ! (c div BITSIZ) AND push_bit (c mod BITSIZ) 1 \<noteq> 0)"

definition dir_closed :: "dbm \<Rightarrow> bool" where
  "dir_closed s \<longleftrightarrow>
     list_all (\<lambda>c. dbit0 s c \<longrightarrow> dbit0 s ((c - 1) div 2)) [1..<DBLKSIZ * BITSIZ]"

definition dir_inv :: "dbm \<Rightarrow> bool" where
  "dir_inv s \<longleftrightarrow>
     length (dirbuf s) = DBLKSIZ \<and>
     ((fdata (dirf s) = [] \<and> maxbno s = 0 \<and> dirbno s = 0) \<or>
      (DBLKSIZ \<le> length (fdata (dirf s)) \<and> DBLKSIZ * BITSIZ \<le> maxbno s)) \<and>
     (dirbno s = 0 \<longrightarrow> dirbuf s = dir0 s) \<and>
     dir_closed s"

text \<open>
  Two handles that differ at most in the directory buffer, its block number, the offset of
  the directory descriptor and the reads and seeks of the log.
\<close>

definition same_but_dircache :: "dbm \<Rightarrow> dbm \<Rightarrow> bool" where
  "same_but_dircache s s' \<longleftrightarrow>
     pagf s' = pagf s \<and> rdonly s' = rdonly s \<and> maxbno s' = maxbno s \<and> curbit s' = curbit s \<and>
     hmask s' = hmask s \<and> blkptr s' = blkptr s \<and> keyptr s' = keyptr s \<and> pagbno s' = pagbno s \<and>
     pag s' = pag s \<and> faults s' = faults s \<and> fdata (dirf s') = fdata (dirf s) \<and>
     writes (log s') = writes (log s)"

text \<open>
  The handle holds the page of a hash whose leaf is at depth \<open>H\<close>: the directory is in
  order, no call is scheduled to fail, the page in the buffer has the number
  \<open>hash & (2^H - 1)\<close>, the nodes above depth \<open>H\<close> on the way of the hash are marked split
  and the node at depth \<open>H\<close> is not, and that node lies in the first directory block.
\<close>

definition leaf :: "int \<Rightarrow> nat \<Rightarrow> dbm \<Rightarrow> bool" where
  "leaf hash H s \<longleftrightarrow>
     dir_inv s \<and> faults s = [] \<and> pagbno s = hash AND (2 ^ H - 1) \<and>
     trie_node hash H < DBLKSIZ * BITSIZ \<and>
     list_all (\<lambda>h. trie_node hash h < maxbno s \<and> dbit0 s (trie_node hash h)) [0..<H] \<and>
     (maxbno s \<le> trie_node hash H \<or> \<not> dbit0 s (trie_node hash H))"

section \<open>Proofs\<close>

declare getPage_walk.simps [simp del] seePair_loop.simps [simp del] DelPair_shift.simps [simp del]
  SplPage_loop.simps [simp del] ChkPage_loop.simps [simp del] getNext.simps [simp del]

subsection \<open>The hash\<close>

lemma hash_fold_word:
  "foldl (\<lambda>(hash :: 64 word) b. ucast b + 65599 * hash) (word_of_nat a) data
     = word_of_nat (foldl (\<lambda>h b. 65599 * h + unat b) a data)"
proof (induction data arbitrary: a)
  case Nil
  then show ?case by simp
next
  case (Cons b data)
  have "(ucast b :: 64 word) + 65599 * word_of_nat a = word_of_nat (65599 * a + unat b)"
    by (simp add: add.commute)
  then show ?case using Cons.IH [of "65599 * a + unat b"] by (simp add: add.commute)
qed

lemma sint_word_of_nat_64: "sint (word_of_nat x :: 64 word) = as_signed64 x"
proof -
  define k where "k = int (x mod 2 ^ 64)"
  have u: "uint (word_of_nat x :: 64 word) = k"
    by (simp add: k_def uint_word_of_int zmod_int of_nat_mod take_bit_eq_mod unsigned_of_nat)
  have kb: "0 \<le> k" "k < 2 ^ 64"
    by (simp_all add: k_def zmod_int)
  have "sint (word_of_nat x :: 64 word) = (k + 2 ^ 63) mod 2 ^ 64 - 2 ^ 63"
    by (simp add: sint_uint signed_take_bit_eq_take_bit_shift take_bit_eq_mod u)
  also have "\<dots> = (if k < 2 ^ 63 then k else k - 2 ^ 64)"
  proof (cases "k < 2 ^ 63")
    case True
    then have "(k + 2 ^ 63) mod 2 ^ 64 = k + 2 ^ 63"
      using kb by (intro mod_pos_pos_trivial) simp_all
    then show ?thesis using True by simp
  next
    case False
    then have "(k + 2 ^ 63) mod 2 ^ 64 = k + 2 ^ 63 - 2 ^ 64"
      using kb by (intro int_mod_pos_eq [where q = 1]) simp_all
    then show ?thesis using False by simp
  qed
  finally have r: "sint (word_of_nat x :: 64 word) = (if k < 2 ^ 63 then k else k - 2 ^ 64)" .
  have c: "(k < 2 ^ 63) \<longleftrightarrow> (x mod 2 ^ 64 < 2 ^ 63)"
  proof -
    have "(int (x mod 2 ^ 64) < int (2 ^ 63)) \<longleftrightarrow> (x mod 2 ^ 64 < 2 ^ 63)"
      by (rule of_nat_less_iff)
    then show ?thesis by (simp add: k_def)
  qed
  show ?thesis
    unfolding r c as_signed64_def k_def by simp
qed

text \<open>
  C8.  The hash is the polynomial \<open>h \<leftarrow> 65599 * h + b\<close> from 0, reduced modulo \<open>2^64\<close> and read
  as a signed 64-bit number; it is a function of the bytes alone.  The hash of the empty
  sequence is 0, the hash of \<open>a\<close> is 97, and the hash of \<open>abc\<close> is
  \<open>97 * 65599^2 + 98 * 65599 + 99\<close> so reduced and read.
\<close>

theorem Hash_spec:
  "Hash data = as_signed64 (hash_poly data) \<and>
   Hash [] = 0 \<and> Hash [97] = 97 \<and>
   Hash [97, 98, 99] = as_signed64 (97 * 65599 ^ 2 + 98 * 65599 + 99)"
proof -
  have "Hash data = as_signed64 (hash_poly data)"
    using hash_fold_word [of 0 data] by (simp add: Hash_def hash_poly_def sint_word_of_nat_64)
  moreover have "Hash [] = 0" "Hash [97] = 97"
    by (simp_all add: Hash_def)
  moreover have "Hash [97, 98, 99] = as_signed64 (97 * 65599 ^ 2 + 98 * 65599 + 99)"
    by (simp add: Hash_def as_signed64_def)
  ultimately show ?thesis by simp
qed
subsection \<open>What a lookup leaves alone\<close>

lemma kept_Seek: "Seek s f off = (s', b) \<Longrightarrow> kept s' = kept s"
  by (auto simp: Seek_def syscall_def setf_def getf_def kept_def disk_def writes_def
      split: prod.splits if_splits list.splits fid.splits)

lemma kept_Read: "Read s f len buf = (s', r) \<Longrightarrow> kept s' = kept s"
  by (auto simp: Read_def Let_def syscall_def setf_def getf_def kept_def disk_def writes_def
      split: prod.splits if_splits list.splits fid.splits)

lemma kept_seekRead: "seekRead s f off len buf = (s', r) \<Longrightarrow> kept s' = kept s"
  by (auto simp: seekRead_def split: prod.splits bool.splits rres.splits
      dest!: kept_Seek kept_Read)

lemma kept_dir_load: "dir_load s dirb = (s', r) \<Longrightarrow> kept s' = kept s"
  by (auto simp: dir_load_def kept_def disk_def split: prod.splits sum.splits if_splits
      dest!: kept_seekRead)

lemma kept_getDBit: "getDBit s dbit = (s', b) \<Longrightarrow> kept s' = kept s"
  by (auto simp: getDBit_def Let_def split: prod.splits option.splits dest!: kept_dir_load)

lemma kept_getPage_walk: "getPage_walk hash s dbit hbit = (s', r) \<Longrightarrow> kept s' = kept s"
proof (induction hash s dbit hbit arbitrary: s' r rule: getPage_walk.induct)
  case (1 hash s dbit hbit)
  show ?case
  proof (cases "dbit < maxbno s")
    case False
    then show ?thesis using "1.prems" by (simp add: getPage_walk.simps)
  next
    case True
    obtain s1 b where g: "getDBit s dbit = (s1, b)" by (cases "getDBit s dbit")
    have k1: "kept s1 = kept s" using kept_getDBit [OF g] .
    show ?thesis
    proof (cases b)
      case False
      then show ?thesis using "1.prems" True g k1 by (simp add: getPage_walk.simps)
    next
      case b: True
      have "kept s' = kept s1"
        using "1.IH" [OF True g [symmetric], of s' r] "1.prems" True g b
        by (simp add: getPage_walk.simps [of hash s])
      then show ?thesis using k1 by simp
    qed
  qed
qed

lemma kept_getPage: "getPage s hash = (s', r) \<Longrightarrow> kept s' = kept s"
  by (auto simp: getPage_def Let_def kept_def disk_def split: prod.splits sum.splits bool.splits if_splits option.splits
      dest!: kept_seekRead kept_getPage_walk)

text \<open>
  C10.  \<open>Fetch\<close> never writes: after it, for every key, the bytes of the directory file
  and of the page file are the ones before, the log holds no further write call, and of the
  fields of the handle only \<open>curbit\<close>, \<open>hmask\<close>, the page buffer with \<open>pagbno\<close> and the
  directory buffer with \<open>dirbno\<close> may differ (\<open>rdonly\<close>, \<open>maxbno\<close>, \<open>blkptr\<close> and \<open>keyptr\<close>
  are the ones before).
\<close>

theorem Fetch_writes_nothing:
  "disk (fst (Fetch s key)) = disk s \<and>
   writes (log (fst (Fetch s key))) = writes (log s) \<and>
   rdonly (fst (Fetch s key)) = rdonly s \<and> maxbno (fst (Fetch s key)) = maxbno s \<and>
   blkptr (fst (Fetch s key)) = blkptr s \<and> keyptr (fst (Fetch s key)) = keyptr s"
proof -
  have "kept (fst (Fetch s key)) = kept s"
    by (auto simp: Fetch_def Let_def split: prod.splits option.splits dest!: kept_getPage)
  then show ?thesis by (simp add: kept_def)
qed
subsection \<open>Keys that are rejected\<close>

text \<open>
  C3 (as amended).  For the nil key, \<open>Fetch\<close>, \<open>Store\<close> and \<open>Delete\<close> return the
  invalid-argument error and the handle and both files are as before: no system call is
  made.
\<close>

theorem nil_key_rejected:
  "Fetch s None = (s, Inl ErrInvalidArgument) \<and>
   Store s None val flags = (s, Inl ErrInvalidArgument) \<and>
   Delete s None = (s, Inl ErrInvalidArgument)"
  by (simp add: Fetch_def Store_def Store_room_def Delete_def bad_def)

lemma getIno_zero_page: "i < 512 \<Longrightarrow> getIno zero_page i = Some 0"
  by (simp add: getIno_def zero_page_def PBLKSIZ_def)

lemma ChkPage_zero_page: "ChkPage zero_page = Some True"
  by (simp add: ChkPage_def getN_def getIno_zero_page)

lemma GetPair_zero_page: "GetPair zero_page key = Some Nullitem"
  by (simp add: GetPair_def getN_def getIno_zero_page)

text \<open>
  C3 as stated fails: the empty key that is not nil has length zero, and \<open>Fetch\<close> on a
  newly created store looks it up and returns absent, with no error.
\<close>

theorem empty_key_not_rejected:
  "snd (Fetch (opened [] [] False) (Some [])) = Inr Nullitem"
  by (simp add: Fetch_def bad_def getPage_def getPage_walk.simps opened_def BITSIZ_def Let_def
      masks_def seekRead_def Seek_def Read_def syscall_def offPag_def setf_def getf_def
      ChkPage_zero_page GetPair_zero_page)

subsection \<open>Well-formed pages\<close>

lemma getIno_ino: "i < 512 \<Longrightarrow> getIno p i = Some (ino p i)"
  by (simp add: getIno_def ino_def PBLKSIZ_def)

lemma getIno_None: "\<not> i < 512 \<Longrightarrow> getIno p i = None"
  by (simp add: getIno_def PBLKSIZ_def)

lemma ino_lt: "ino p i < 65536"
proof -
  have "unat (p ! (i * 2)) < 256" "unat (p ! (i * 2 + 1)) < 256"
    using unsigned_less [of "p ! (i * 2)", where ?'a = nat] unsigned_less [of "p ! (i * 2 + 1)", where ?'a = nat] by simp_all
  then show ?thesis by (simp add: ino_def)
qed

lemma voff_endo: "voff p j = endo p (Suc j)"
  by (simp add: voff_def endo_def)

lemma wf_len: "wf_page p \<Longrightarrow> length p = 1024"
  by (simp add: wf_page_def PBLKSIZ_def)

lemma wf_even: "wf_page p \<Longrightarrow> ino p 0 = 2 * npairs p"
  by (auto simp: wf_page_def npairs_def)

lemma wf_pair: "wf_page p \<Longrightarrow> j < npairs p \<Longrightarrow> endo p (Suc j) \<le> koff p j \<and> koff p j \<le> endo p j"
  by (simp add: wf_page_def list_all_iff voff_endo)

lemma wf_endo_mono: "wf_page p \<Longrightarrow> k \<le> npairs p \<Longrightarrow> j \<le> k \<Longrightarrow> endo p k \<le> endo p j"
proof (induction k)
  case 0
  then show ?case by simp
next
  case (Suc k)
  show ?case
  proof (cases "j = Suc k")
    case True
    then show ?thesis by simp
  next
    case False
    then have "endo p k \<le> endo p j" using Suc by simp
    moreover have "endo p (Suc k) \<le> endo p k" using wf_pair [of p k] Suc.prems by simp
    ultimately show ?thesis by simp
  qed
qed

lemma wf_endo_le: "wf_page p \<Longrightarrow> j \<le> npairs p \<Longrightarrow> endo p j \<le> 1024"
  using wf_endo_mono [of p j 0] by (simp add: endo_def PBLKSIZ_def)

lemma wf_bottom:
  assumes "wf_page p"
  shows "4 * npairs p + 2 \<le> endo p (npairs p)"
proof -
  have "ino p 0 * 2 + 2 \<le> endo p (npairs p)"
    using assms by (simp add: wf_page_def)
  then show ?thesis using wf_even [OF assms] by linarith
qed

lemma wf_endo_ge: "wf_page p \<Longrightarrow> j \<le> npairs p \<Longrightarrow> 4 * npairs p + 2 \<le> endo p j"
  using wf_endo_mono [of p "npairs p" j] wf_bottom [of p] by simp

lemma wf_npairs_le: "wf_page p \<Longrightarrow> npairs p \<le> 255"
  using wf_bottom [of p] wf_endo_le [of p "npairs p"] by simp

lemma free_off_wf: "wf_page p \<Longrightarrow> free_off p (ino p 0) = Some (endo p (npairs p))"
  using wf_npairs_le [of p] wf_even [of p]
  by (auto simp: free_off_def endo_def getIno_ino)

lemma length_copy_at [simp]: "length (copy_at buf off src) = length buf"
  by (simp add: copy_at_def) 

lemma nth_copy_at:
  "off + length src \<le> length buf \<Longrightarrow> x < length buf \<Longrightarrow>
   copy_at buf off src ! x = (if off \<le> x \<and> x < off + length src then src ! (x - off) else buf ! x)"
  by (auto simp: copy_at_def nth_append)

lemma slice_eqI:
  assumes "a + n \<le> length p" "a + n \<le> length q"
    and "\<And>x. a \<le> x \<Longrightarrow> x < a + n \<Longrightarrow> p ! x = q ! x"
  shows "take n (drop a p) = take n (drop a q)"
  using assms by (intro nth_equalityI) simp_all

lemma slice_copy_at:
  "off + length src \<le> length buf \<Longrightarrow> take (length src) (drop off (copy_at buf off src)) = src"
  by (intro nth_equalityI) (simp_all add: nth_copy_at)

lemma ino_cong: "p ! (i * 2) = q ! (i * 2) \<Longrightarrow> p ! (i * 2 + 1) = q ! (i * 2 + 1) \<Longrightarrow> ino p i = ino q i"
  by (simp add: ino_def)

lemma ino_set:
  "i * 2 + 1 < length p \<Longrightarrow> v < 65536 \<Longrightarrow>
   ino (p[i * 2 := word_of_nat (v mod 256), i * 2 + 1 := word_of_nat (v div 256 mod 256)]) i = v"
  by (simp add: ino_def unat_of_nat)

lemma pair_at_eqI:
  assumes len: "length q = length p"
    and e: "endo q j = endo p j" and k: "koff q j = koff p j" and v: "voff q j = voff p j"
    and b: "endo p j \<le> length p" "voff p j \<le> koff p j" "koff p j \<le> endo p j"
    and d: "\<And>x. voff p j \<le> x \<Longrightarrow> x < endo p j \<Longrightarrow> q ! x = p ! x"
  shows "pair_at q j = pair_at p j"
proof -
  have "take (endo p j - koff p j) (drop (koff p j) q) = take (endo p j - koff p j) (drop (koff p j) p)"
    using len b d by (intro slice_eqI) simp_all
  moreover have "take (koff p j - voff p j) (drop (voff p j) q) = take (koff p j - voff p j) (drop (voff p j) p)"
    using len b d by (intro slice_eqI) simp_all
  ultimately show ?thesis by (simp add: pair_at_def e k v)
qed

lemma PutPair_wf:
  assumes wf: "wf_page p"
    and fit: "length k + length v + 4 * npairs p + 6 \<le> endo p (npairs p)"
  shows "\<exists>p'. PutPair p k v = Some p' \<and> wf_page p' \<and> pairs p' = pairs p @ [(k, v)]"
proof -
  define m where "m = npairs p"
  define o0 where "o0 = endo p m"
  define o1 where "o1 = o0 - length k"
  define o2 where "o2 = o1 - length v"
  have len: "length p = 1024" using wf by (rule wf_len)
  have n: "ino p 0 = 2 * m" using wf_even [OF wf] by (simp add: m_def)
  have m255: "m \<le> 255" using wf_npairs_le [OF wf] by (simp add: m_def)
  have o0: "o0 \<le> 1024" using wf_endo_le [OF wf, of m] by (simp add: o0_def m_def)
  have fit': "length k + length v + 4 * m + 6 \<le> o0" using fit by (simp add: m_def o0_def)
  have o: "o1 + length k = o0" "o2 + length v = o1" "4 * m + 6 \<le> o2" "o2 \<le> o1" "o1 \<le> o0"
    using fit' by (simp_all add: o1_def o2_def)
  define p1 where "p1 = copy_at p o1 k"
  define p2 where "p2 = p1[(2 * m + 1) * 2 := word_of_nat (o1 mod 256), (2 * m + 1) * 2 + 1 := word_of_nat (o1 div 256 mod 256)]"
  define p3 where "p3 = copy_at p2 o2 v"
  define p4 where "p4 = p3[(2 * m + 2) * 2 := word_of_nat (o2 mod 256), (2 * m + 2) * 2 + 1 := word_of_nat (o2 div 256 mod 256)]"
  define p5 where "p5 = p4[0 := word_of_nat ((2 * m + 2) mod 256), 1 := word_of_nat ((2 * m + 2) div 256 mod 256)]"
  have lens: "length p1 = 1024" "length p2 = 1024" "length p3 = 1024" "length p4 = 1024" "length p5 = 1024"
    by (simp_all add: p1_def p2_def p3_def p4_def p5_def len)
  have fo: "free_off p (2 * m) = Some o0"
    using free_off_wf [OF wf] by (simp add: n o0_def m_def)
  have i1: "int o0 - int (length k) = int o1" using o by linarith
  have i2: "int o1 - int (length v) = int o2" using o by linarith
  have put: "PutPair p k v = Some p5"
    using o o0 m255
    by (simp add: PutPair_def getN_def getIno_ino n fo i1 i2 go_copy_def setIno_def setN_def len lens
        PBLKSIZ_def p1_def p2_def p3_def p4_def p5_def Let_def)
  have hi: "\<And>x. o0 \<le> x \<Longrightarrow> x < 1024 \<Longrightarrow> p5 ! x = p ! x"
    using o o0 by (simp add: p5_def p4_def p3_def p2_def p1_def nth_copy_at len lens)
  have lo: "\<And>x. 2 \<le> x \<Longrightarrow> x < 4 * m + 2 \<Longrightarrow> p5 ! x = p ! x"
    using o o0 by (simp add: p5_def p4_def p3_def p2_def p1_def nth_copy_at len lens)
  have n5: "ino p5 0 = 2 * m + 2"
    unfolding p5_def using ino_set [of 0 p4 "2 * m + 2"] m255 lens by simp
  have k5: "ino p5 (2 * m + 1) = o1"
  proof -
    have "ino p2 (2 * m + 1) = o1"
      unfolding p2_def using ino_set [of "2 * m + 1" p1 o1] o o0 m255 lens by simp
    moreover have "ino p5 (2 * m + 1) = ino p2 (2 * m + 1)"
      using o o0 by (intro ino_cong) (simp_all add: p5_def p4_def p3_def nth_copy_at lens)
    ultimately show ?thesis by simp
  qed
  have v5: "ino p5 (2 * m + 2) = o2"
  proof -
    have "ino p4 (2 * m + 2) = o2"
      unfolding p4_def using ino_set [of "2 * m + 2" p3 o2] o o0 m255 lens by simp
    moreover have "ino p5 (2 * m + 2) = ino p4 (2 * m + 2)"
      by (intro ino_cong) (simp_all add: p5_def)
    ultimately show ?thesis by simp
  qed
  have old: "\<And>i. 1 \<le> i \<Longrightarrow> i \<le> 2 * m \<Longrightarrow> ino p5 i = ino p i"
    by (intro ino_cong lo) simp_all
  have kslice: "take (length k) (drop o1 p5) = k"
  proof -
    have "take (length k) (drop o1 p5) = take (length k) (drop o1 p1)"
      using o o0 by (intro slice_eqI) (simp_all add: lens p5_def p4_def p3_def p2_def nth_copy_at)
    then show ?thesis using slice_copy_at [of o1 k p] o o0 by (simp add: p1_def len)
  qed
  have vslice: "take (length v) (drop o2 p5) = v"
  proof -
    have "take (length v) (drop o2 p5) = take (length v) (drop o2 p3)"
      using o o0 by (intro slice_eqI) (simp_all add: lens p5_def p4_def nth_copy_at)
    then show ?thesis using slice_copy_at [of o2 v p2] o o0 by (simp add: p3_def lens)
  qed
  have np5: "npairs p5 = Suc m" by (simp add: npairs_def n5)
  have endo5: "\<And>j. j \<le> m \<Longrightarrow> endo p5 j = endo p j"
    using old by (simp add: endo_def)
  have koff5: "\<And>j. j < m \<Longrightarrow> koff p5 j = koff p j"
    using old by (simp add: koff_def)
  have voff5: "\<And>j. j < m \<Longrightarrow> voff p5 j = voff p j"
    using old by (simp add: voff_def)
  have pa_old: "pair_at p5 j = pair_at p j" if j: "j < m" for j
  proof (rule pair_at_eqI)
    show "length p5 = length p" by (simp add: lens len)
    show "endo p5 j = endo p j" using j endo5 by simp
    show "koff p5 j = koff p j" using j koff5 by simp
    show "voff p5 j = voff p j" using j voff5 by simp
    show "endo p j \<le> length p" using wf_endo_le [OF wf, of j] j by (simp add: len m_def)
    show "voff p j \<le> koff p j" "koff p j \<le> endo p j"
      using wf_pair [OF wf, of j] j by (simp_all add: voff_endo m_def)
    fix x assume x: "voff p j \<le> x" "x < endo p j"
    have "o0 \<le> voff p j"
      using wf_endo_mono [OF wf, of m "Suc j"] j by (simp add: voff_endo o0_def m_def)
    moreover have "endo p j \<le> 1024" using wf_endo_le [OF wf, of j] j by (simp add: m_def)
    ultimately show "p5 ! x = p ! x" using x by (intro hi) simp_all
  qed
  have pa_new: "pair_at p5 m = (k, v)"
  proof -
    have "endo p5 m = o0" using endo5 [of m] by (simp add: o0_def)
    moreover have "koff p5 m = o1" using k5 by (simp add: koff_def)
    moreover have "voff p5 m = o2" using v5 by (simp add: voff_def)
    moreover have "o0 - o1 = length k" "o1 - o2 = length v" using o by simp_all
    ultimately show ?thesis by (simp add: pair_at_def kslice vslice)
  qed
  have prs: "pairs p5 = pairs p @ [(k, v)]"
    using pa_old pa_new by (simp add: pairs_def np5 m_def [symmetric])
  have wf5: "wf_page p5"
    unfolding wf_page_def
  proof (intro conjI)
    show "length p5 = PBLKSIZ" by (simp add: lens PBLKSIZ_def)
    show "even (ino p5 0)" by (simp add: n5)
    have "endo p5 (Suc m) = o2" using v5 by (simp add: endo_def)
    then show "ino p5 0 * 2 + 2 \<le> endo p5 (npairs p5)" using o by (simp add: n5 np5)
    show "list_all (\<lambda>j. voff p5 j \<le> koff p5 j \<and> koff p5 j \<le> endo p5 j) [0..<npairs p5]"
      unfolding list_all_iff np5
    proof
      fix j assume "j \<in> set [0..<Suc m]"
      then have "j < m \<or> j = m" by auto
      then show "voff p5 j \<le> koff p5 j \<and> koff p5 j \<le> endo p5 j"
      proof
        assume j: "j < m"
        then show ?thesis
          using wf_pair [OF wf, of j] endo5 [of j] koff5 [of j] voff5 [of j]
          by (simp add: voff_endo m_def)
      next
        assume j: "j = m"
        have "endo p5 m = o0" using endo5 [of m] by (simp add: o0_def)
        then show ?thesis using o k5 v5 by (simp add: j koff_def voff_def)
      qed
    qed
  qed
  show ?thesis using put wf5 prs by blast
qed

lemma used_dsize: "used ps = dsize ps + 4 * length ps"
  by (induction ps) (auto simp: used_def dsize_def)

lemma length_pairs [simp]: "length (pairs p) = npairs p"
  by (simp add: pairs_def)

lemma nth_pairs: "j < npairs p \<Longrightarrow> pairs p ! j = pair_at p j"
  by (simp add: pairs_def)

lemma take_pairs_Suc: "j < npairs p \<Longrightarrow> take (Suc j) (pairs p) = take j (pairs p) @ [pair_at p j]"
  by (simp add: take_Suc_conv_app_nth nth_pairs)

lemma pair_at_lengths:
  assumes "wf_page p" "j < npairs p"
  shows "length (fst (pair_at p j)) = endo p j - koff p j"
    and "length (snd (pair_at p j)) = koff p j - endo p (Suc j)"
proof -
  have "endo p j \<le> 1024" using wf_endo_le [OF assms(1), of j] assms(2) by simp
  moreover have "endo p (Suc j) \<le> koff p j" "koff p j \<le> endo p j"
    using wf_pair [OF assms] by simp_all
  ultimately show "length (fst (pair_at p j)) = endo p j - koff p j"
    and "length (snd (pair_at p j)) = koff p j - endo p (Suc j)"
    using wf_len [OF assms(1)] by (simp_all add: pair_at_def voff_endo)
qed

lemma endo_dsize:
  "wf_page p \<Longrightarrow> j \<le> npairs p \<Longrightarrow> endo p j + dsize (take j (pairs p)) = 1024"
proof (induction j)
  case 0
  then show ?case by (simp add: endo_def dsize_def PBLKSIZ_def)
next
  case (Suc j)
  have j: "j < npairs p" using Suc.prems by simp
  have ih: "endo p j + dsize (take j (pairs p)) = 1024" using Suc by simp
  have l: "length (fst (pair_at p j)) + length (snd (pair_at p j)) = endo p j - endo p (Suc j)"
    using pair_at_lengths [OF Suc.prems(1) j] wf_pair [OF Suc.prems(1) j] by simp
  have "dsize (take (Suc j) (pairs p)) = dsize (take j (pairs p)) + (endo p j - endo p (Suc j))"
    using l by (simp add: take_pairs_Suc [OF j] dsize_def case_prod_beta)
  then show ?case using ih wf_pair [OF Suc.prems(1) j] by simp
qed

lemma bottom_used:
  assumes "wf_page p"
  shows "endo p (npairs p) + used (pairs p) = 1024 + 4 * npairs p"
  using endo_dsize [OF assms, of "npairs p"] by (simp add: used_dsize)

lemma used_le: "wf_page p \<Longrightarrow> used (pairs p) + 2 \<le> 1024"
  using bottom_used [of p] wf_bottom [of p] by simp

lemma FitPair_wf:
  assumes "wf_page p"
  shows "FitPair p need = Some (need + int (used (pairs p)) + 6 \<le> 1024)"
proof -
  have n: "ino p 0 = 2 * npairs p" using wf_even [OF assms] .
  have fo: "free_off p (2 * npairs p) = Some (endo p (npairs p))"
    using free_off_wf [OF assms] by (simp add: n)
  have "int (endo p (npairs p)) + int (used (pairs p)) = 1024 + 4 * int (npairs p)"
    using bottom_used [OF assms] by linarith
  then show ?thesis
    by (simp add: FitPair_def getN_def getIno_ino n fo SHORTSIZE_def Let_def) linarith
qed

lemma PutPair_used:
  assumes wf: "wf_page p" and fit: "length k + length v + used (pairs p) + 6 \<le> 1024"
  shows "\<exists>p'. PutPair p k v = Some p' \<and> wf_page p' \<and> pairs p' = pairs p @ [(k, v)]"
proof (rule PutPair_wf [OF wf])
  show "length k + length v + 4 * npairs p + 6 \<le> endo p (npairs p)"
    using bottom_used [OF wf] fit by linarith
qed

lemma wf_zero_page: "wf_page zero_page"
  by (simp add: wf_page_def zero_page_def ino_def npairs_def endo_def PBLKSIZ_def)

lemma pairs_zero_page: "pairs zero_page = []"
  by (simp add: pairs_def zero_page_def ino_def npairs_def PBLKSIZ_def)

lemma first_match_None: "first_match key ps = None \<longleftrightarrow> key \<notin> fst ` set ps"
  by (induction ps) auto

lemma first_match_None_map_of: "first_match key ps = None \<Longrightarrow> map_of ps key = None"
  by (simp add: first_match_None map_of_eq_None_iff)

lemma first_match_Some:
  "first_match key ps = Some d \<Longrightarrow>
     d < length ps \<and> fst (ps ! d) = key \<and> map_of ps key = Some (snd (ps ! d)) \<and>
     (\<forall>e<d. fst (ps ! e) \<noteq> key)"
proof (induction ps arbitrary: d)
  case Nil
  then show ?case by simp
next
  case (Cons kv ps)
  show ?case
  proof (cases "fst kv = key")
    case True
    then show ?thesis using Cons.prems by (cases kv) auto
  next
    case False
    then obtain d' where d': "first_match key ps = Some d'" "d = Suc d'"
      using Cons.prems by auto
    from Cons.IH [OF d'(1)] False d'(2) show ?thesis
      by (cases kv) (auto simp: nth_Cons split: nat.splits)
  qed
qed

lemma nat_int_sub [simp]: "nat (int a - int b) = a - b"
  by simp

lemma match_at_wf:
  assumes wf: "wf_page p" and j: "j < npairs p"
  shows "match_at p key (koff p j) (int (endo p j)) = Some (key = fst (pair_at p j))"
proof -
  have b: "koff p j \<le> endo p j" "endo p j \<le> 1024"
    using wf_pair [OF wf j] wf_endo_le [OF wf, of j] j by simp_all
  have len: "length p = 1024" using wf_len [OF wf] .
  have l: "length (fst (pair_at p j)) = endo p j - koff p j"
    using pair_at_lengths [OF wf j] by simp
  show ?thesis
  proof (cases "int (length key) = int (endo p j) - int (koff p j)")
    case False
    then have "length key \<noteq> endo p j - koff p j" using b by linarith
    then have "key \<noteq> fst (pair_at p j)" using l by auto
    then show ?thesis using False by (simp add: match_at_def)
  next
    case True
    then have e: "koff p j + length key = endo p j" using b by linarith
    then have lk: "length key = endo p j - koff p j" by simp
    have "(koff p j + length key mod 65536) mod 65536 = endo p j"
      using e b by simp
    then show ?thesis
      using True b by (simp add: match_at_def go_slice_def len pair_at_def lk)
  qed
qed

lemma seePair_loop_wf:
  assumes wf: "wf_page p"
  shows "j \<le> npairs p \<Longrightarrow>
    seePair_loop p (ino p 0) key (2 * j + 1) (int (endo p j))
      = Some (case first_match key (drop j (pairs p)) of None \<Rightarrow> 0 | Some d \<Rightarrow> 2 * (j + d) + 1)"
proof (induction "npairs p - j" arbitrary: j)
  case 0
  then have j: "j = npairs p" by simp
  show ?case
    by (subst seePair_loop.simps) (simp add: j wf_even [OF wf])
next
  case (Suc d)
  then have j: "j < npairs p" by simp
  have n: "ino p 0 = 2 * npairs p" using wf_even [OF wf] .
  have m255: "npairs p \<le> 255" using wf_npairs_le [OF wf] .
  have g1: "getIno p (2 * j + 1) = Some (koff p j)"
    using j m255 by (simp add: getIno_ino koff_def)
  have g2: "getIno p (2 * j + 1 + 1) = Some (endo p (Suc j))"
    using j m255 by (simp add: getIno_ino endo_def)
  have dr: "drop j (pairs p) = pair_at p j # drop (Suc j) (pairs p)"
    using j by (simp add: Cons_nth_drop_Suc [symmetric] nth_pairs)
  have ih: "seePair_loop p (ino p 0) key (2 * Suc j + 1) (int (endo p (Suc j)))
      = Some (case first_match key (drop (Suc j) (pairs p)) of None \<Rightarrow> 0 | Some d \<Rightarrow> 2 * (Suc j + d) + 1)"
    using Suc.hyps(1) [of "Suc j"] Suc.hyps(2) j by simp
  have i: "2 * j + 1 < ino p 0" using j n by simp
  show ?case
  proof (cases "key = fst (pair_at p j)")
    case True
    then show ?thesis
      using i g1 by (subst seePair_loop.simps) (simp add: match_at_wf [OF wf j] dr)
  next
    case False
    have "seePair_loop p (ino p 0) key (2 * j + 1) (int (endo p j))
        = seePair_loop p (ino p 0) key (2 * j + 1 + 2) (int (endo p (Suc j)))"
      using i False g1 g2 by (subst seePair_loop.simps) (simp add: match_at_wf [OF wf j])
    then show ?thesis
      using ih False by (auto simp: dr split: option.splits)
  qed
qed

lemma seePair_wf:
  assumes wf: "wf_page p"
  shows "seePair p (ino p 0) key
      = Some (case first_match key (pairs p) of None \<Rightarrow> 0 | Some d \<Rightarrow> 2 * d + 1)"
  using seePair_loop_wf [OF wf, of 0 key]
  by (simp add: seePair_def endo_def split: option.splits)

lemma GetPair_wf:
  assumes wf: "wf_page p"
  shows "GetPair p key = Some (map_of (pairs p) key)"
proof (cases "first_match key (pairs p)")
  case None
  then show ?thesis
    using first_match_None_map_of [OF None]
    by (simp add: GetPair_def getN_def getIno_ino seePair_wf [OF wf] Nullitem_def)
next
  case (Some d)
  from first_match_Some [OF Some]
  have d: "d < npairs p" and mo: "map_of (pairs p) key = Some (snd (pair_at p d))"
    by (simp_all add: nth_pairs)
  have m255: "npairs p \<le> 255" using wf_npairs_le [OF wf] .
  have n0: "ino p 0 \<noteq> 0" using d wf_even [OF wf] by simp
  have g1: "getIno p (2 * d + 1) = Some (koff p d)"
    using d m255 by (simp add: getIno_ino koff_def)
  have g2: "getIno p (2 * d + 1 + 1) = Some (voff p d)"
    using d m255 by (simp add: getIno_ino voff_def)
  have b: "voff p d \<le> koff p d" "koff p d \<le> 1024"
    using wf_pair [OF wf d] wf_endo_le [OF wf, of d] d by (simp_all add: voff_endo)
  have "go_slice p (int (voff p d)) (int (koff p d)) = Some (snd (pair_at p d))"
    using b wf_len [OF wf] by (simp add: go_slice_def pair_at_def)
  then show ?thesis
    using n0 g1 g2 by (simp add: GetPair_def getN_def getIno_ino seePair_wf [OF wf] Some mo)
qed

lemma DupPair_wf:
  assumes wf: "wf_page p"
  shows "DupPair p key = Some (key \<in> fst ` set (pairs p))"
proof (cases "first_match key (pairs p)")
  case None
  then show ?thesis
    using first_match_None [of key "pairs p"]
    by (simp add: DupPair_def getN_def getIno_ino seePair_wf [OF wf])
next
  case (Some d)
  then have "first_match key (pairs p) \<noteq> None" by simp
  then have in_pairs: "key \<in> fst ` set (pairs p)" using first_match_None [of key "pairs p"] by simp
  then have "pairs p \<noteq> []" by auto
  then have n0: "ino p 0 \<noteq> 0" using wf_even [OF wf] by (auto simp: pairs_def)
  show ?thesis
    using n0 in_pairs by (simp add: DupPair_def getN_def getIno_ino seePair_wf [OF wf] Some)
qed

lemma ChkPage_loop_wf:
  assumes wf: "wf_page p"
  shows "j \<le> npairs p \<Longrightarrow>
    ChkPage_loop p (2 * j + 1) (2 * (int (npairs p) - int j)) (endo p j) = Some True"
proof (induction "npairs p - j" arbitrary: j)
  case 0
  then show ?case by (subst ChkPage_loop.simps) simp
next
  case (Suc d)
  then have j: "j < npairs p" by simp
  have m255: "npairs p \<le> 255" using wf_npairs_le [OF wf] .
  have g1: "getIno p (2 * j + 1) = Some (koff p j)"
    using j m255 by (simp add: getIno_ino koff_def)
  have g2: "getIno p (2 * j + 1 + 1) = Some (endo p (Suc j))"
    using j m255 by (simp add: getIno_ino endo_def)
  have ih: "ChkPage_loop p (2 * Suc j + 1) (2 * (int (npairs p) - int (Suc j))) (endo p (Suc j)) = Some True"
    using Suc.hyps(1) [of "Suc j"] Suc.hyps(2) j by simp
  define N where "N = 2 * (int (npairs p) - int j)"
  have a: "N - 2 = 2 * (int (npairs p) - int (Suc j))" by (simp add: N_def)
  have pos: "N > 0" using j by (simp add: N_def)
  have st: "ChkPage_loop p (2 * j + 1) N (endo p j)
      = ChkPage_loop p (2 * j + 1 + 2) (N - 2) (endo p (Suc j))"
    using pos g1 g2 wf_pair [OF wf j] by (subst ChkPage_loop.simps) simp
  have "ChkPage_loop p (2 * j + 1 + 2) (N - 2) (endo p (Suc j)) = Some True"
    unfolding a using ih by simp
  then show ?case using st unfolding N_def [symmetric] by simp
qed

lemma ChkPage_wf:
  assumes wf: "wf_page p"
  shows "ChkPage p = Some True"
  using ChkPage_loop_wf [OF wf, of 0] wf_npairs_le [OF wf] wf_even [OF wf]
  by (simp add: ChkPage_def getN_def getIno_ino PBLKSIZ_def SHORTSIZE_def endo_def)

lemma used_append: "used (xs @ ys) = used xs + used ys"
  by (simp add: used_def)

lemma used_filter_le: "used (filter P xs) \<le> used xs"
  by (induction xs) (auto simp: used_def)

lemma used_take_le: "used (take j xs) \<le> used xs"
  using used_append [of "take j xs" "drop j xs"] by simp

lemma go_slices_pair:
  assumes wf: "wf_page p" and j: "j < npairs p"
  shows "go_slice p (int (koff p j)) (int (endo p j)) = Some (fst (pair_at p j))"
    and "go_slice p (int (endo p (Suc j))) (int (koff p j)) = Some (snd (pair_at p j))"
proof -
  have b: "endo p (Suc j) \<le> koff p j" "koff p j \<le> endo p j" "endo p j \<le> 1024"
    using wf_pair [OF wf j] wf_endo_le [OF wf, of j] j by simp_all
  show "go_slice p (int (koff p j)) (int (endo p j)) = Some (fst (pair_at p j))"
    and "go_slice p (int (endo p (Suc j))) (int (koff p j)) = Some (snd (pair_at p j))"
    using b wf_len [OF wf] by (simp_all add: go_slice_def pair_at_def voff_endo)
qed

lemma SplPage_loop_wf:
  assumes wf: "wf_page cur"
  shows "j \<le> npairs cur \<Longrightarrow> wf_page a \<Longrightarrow> wf_page b \<Longrightarrow>
    pairs a = filter (\<lambda>kv. \<not> goes_new sbit kv) (take j (pairs cur)) \<Longrightarrow>
    pairs b = filter (goes_new sbit) (take j (pairs cur)) \<Longrightarrow>
    \<exists>a' b'. SplPage_loop cur sbit a b (2 * j + 1) (2 * (npairs cur - j)) (endo cur j) = Some (a', b') \<and>
       wf_page a' \<and> wf_page b' \<and>
       pairs a' = filter (\<lambda>kv. \<not> goes_new sbit kv) (pairs cur) \<and>
       pairs b' = filter (goes_new sbit) (pairs cur)"
proof (induction "npairs cur - j" arbitrary: j a b)
  case 0
  then have j: "j = npairs cur" by simp
  show ?case
    using "0.prems" by (subst SplPage_loop.simps) (simp add: j)
next
  case (Suc d)
  then have j: "j < npairs cur" by simp
  define kv where "kv = pair_at cur j"
  have m255: "npairs cur \<le> 255" using wf_npairs_le [OF wf] .
  have g1: "getIno cur (2 * j + 1) = Some (koff cur j)"
    using j m255 by (simp add: getIno_ino koff_def)
  have g2: "getIno cur (2 * j + 1 + 1) = Some (endo cur (Suc j))"
    using j m255 by (simp add: getIno_ino endo_def)
  have tk: "take (Suc j) (pairs cur) = take j (pairs cur) @ [kv]"
    using take_pairs_Suc [OF j] by (simp add: kv_def)
  have cnt: "(2 * (npairs cur - j) + 65536 - 2) mod 65536 = 2 * (npairs cur - Suc j)"
  proof -
    obtain e where e: "npairs cur - j = Suc e" using j by (cases "npairs cur - j") simp_all
    then have e': "npairs cur - Suc j = e" by simp
    have "2 * Suc e + 65536 - 2 = 65536 + 2 * e" by simp
    moreover have "2 * e < 65536" using e m255 by linarith
    ultimately show ?thesis unfolding e e' by simp
  qed
  have room: "length (fst kv) + length (snd kv) + 4 + used (take j (pairs cur)) + 2 \<le> 1024"
  proof -
    have "used (take (Suc j) (pairs cur)) \<le> used (pairs cur)" by (rule used_take_le)
    then have "used (take j (pairs cur)) + (length (fst kv) + length (snd kv) + 4) \<le> used (pairs cur)"
      by (simp add: tk used_append) (simp add: used_def case_prod_beta)
    then show ?thesis using used_le [OF wf] by linarith
  qed
  have step: "SplPage_loop cur sbit a b (2 * j + 1) (2 * (npairs cur - j)) (endo cur j)
      = (if goes_new sbit kv then
           (case PutPair b (fst kv) (snd kv) of None \<Rightarrow> None
            | Some b' \<Rightarrow> SplPage_loop cur sbit a b' (2 * j + 1 + 2)
                ((2 * (npairs cur - j) + 65536 - 2) mod 65536) (endo cur (Suc j)))
         else
           (case PutPair a (fst kv) (snd kv) of None \<Rightarrow> None
            | Some a' \<Rightarrow> SplPage_loop cur sbit a' b (2 * j + 1 + 2)
                ((2 * (npairs cur - j) + 65536 - 2) mod 65536) (endo cur (Suc j))))"
    using j g1 g2 go_slices_pair [OF wf j]
    by (subst SplPage_loop.simps) (simp add: kv_def goes_new_def)
  show ?case
  proof (cases "goes_new sbit kv")
    case True
    have "used (pairs b) \<le> used (take j (pairs cur))"
      using Suc.prems(5) used_filter_le by simp
    then have "length (fst kv) + length (snd kv) + used (pairs b) + 6 \<le> 1024"
      using room by linarith
    from PutPair_used [OF Suc.prems(3) this]
    obtain b' where b': "PutPair b (fst kv) (snd kv) = Some b'" "wf_page b'"
      "pairs b' = pairs b @ [(fst kv, snd kv)]" by blast
    have pa: "pairs a = filter (\<lambda>kv. \<not> goes_new sbit kv) (take (Suc j) (pairs cur))"
      using Suc.prems(4) True by (simp add: tk)
    have pb: "pairs b' = filter (goes_new sbit) (take (Suc j) (pairs cur))"
      using Suc.prems(5) True b'(3) by (simp add: tk)
    have "npairs cur - Suc j = d" using Suc.hyps(2) by simp
    from Suc.hyps(1) [OF this [symmetric] _ Suc.prems(2) b'(2) pa pb] j cnt
    show ?thesis unfolding step by (simp add: True b'(1))
  next
    case False
    have "used (pairs a) \<le> used (take j (pairs cur))"
      using Suc.prems(4) used_filter_le by simp
    then have "length (fst kv) + length (snd kv) + used (pairs a) + 6 \<le> 1024"
      using room by linarith
    from PutPair_used [OF Suc.prems(2) this]
    obtain a' where a': "PutPair a (fst kv) (snd kv) = Some a'" "wf_page a'"
      "pairs a' = pairs a @ [(fst kv, snd kv)]" by blast
    have pa: "pairs a' = filter (\<lambda>kv. \<not> goes_new sbit kv) (take (Suc j) (pairs cur))"
      using Suc.prems(4) False a'(3) by (simp add: tk)
    have pb: "pairs b = filter (goes_new sbit) (take (Suc j) (pairs cur))"
      using Suc.prems(5) False by (simp add: tk)
    have "npairs cur - Suc j = d" using Suc.hyps(2) by simp
    from Suc.hyps(1) [OF this [symmetric] _ a'(2) Suc.prems(3) pa pb] j cnt
    show ?thesis unfolding step by (simp add: False a'(1))
  qed
qed

lemma SplPage_wf:
  assumes wf: "wf_page p"
  shows "\<exists>p' np. SplPage p sbit = Some (p', np) \<and> wf_page p' \<and> wf_page np \<and>
       pairs p' = filter (\<lambda>kv. \<not> goes_new sbit kv) (pairs p) \<and>
       pairs np = filter (goes_new sbit) (pairs p)"
  using SplPage_loop_wf [OF wf, of 0 zero_page zero_page sbit] wf_zero_page pairs_zero_page
    wf_even [OF wf]
  by (simp add: SplPage_def getIno_ino endo_def)

subsection \<open>Splitting a page\<close>

lemma page_of_snoc: "page_of (ps @ [kv]) = the (PutPair (page_of ps) (fst kv) (snd kv))"
  by (simp add: page_of_def)

lemma page_of_wf: "used ps + 2 \<le> 1024 \<Longrightarrow> wf_page (page_of ps) \<and> pairs (page_of ps) = ps"
proof (induction ps rule: rev_induct)
  case Nil
  then show ?case by (simp add: page_of_def wf_zero_page pairs_zero_page)
next
  case (snoc kv ps)
  have u: "used (ps @ [kv]) = used ps + (length (fst kv) + length (snd kv) + 4)"
    by (simp add: used_def case_prod_beta)
  then have ih: "wf_page (page_of ps)" "pairs (page_of ps) = ps"
    using snoc by simp_all
  have "length (fst kv) + length (snd kv) + used (pairs (page_of ps)) + 6 \<le> 1024"
    using snoc.prems u ih(2) by simp
  from PutPair_used [OF ih(1) this] ih(2) show ?case
    by (auto simp: page_of_snoc)
qed

text \<open>
  C7.  For every well-formed page and every \<open>sbit\<close>, \<open>SplPage\<close> returns (it does not
  panic), the new page holds, in slot order, the pairs whose key \<open>k\<close> has
  \<open>hash(k) & sbit \<noteq> 0\<close>, the original page holds the other pairs in slot order, both
  pages pass \<open>ChkPage\<close> and are well formed, and together they hold the original pairs.
\<close>

theorem SplPage_redistributes:
  assumes "wf_page p"
  shows "\<exists>p' newPag. SplPage p sbit = Some (p', newPag) \<and>
     pairs newPag = filter (\<lambda>kv. exHash (fst kv) AND sbit \<noteq> 0) (pairs p) \<and>
     pairs p' = filter (\<lambda>kv. \<not> exHash (fst kv) AND sbit \<noteq> 0) (pairs p) \<and>
     ChkPage p' = Some True \<and> ChkPage newPag = Some True \<and>
     wf_page p' \<and> wf_page newPag \<and>
     mset (pairs p') + mset (pairs newPag) = mset (pairs p)"
proof -
  from SplPage_wf [OF assms, of sbit]
  obtain p' np where r: "SplPage p sbit = Some (p', np)" "wf_page p'" "wf_page np"
    "pairs p' = filter (\<lambda>kv. \<not> goes_new sbit kv) (pairs p)"
    "pairs np = filter (goes_new sbit) (pairs p)" by blast
  have "mset (pairs p') + mset (pairs np) = mset (pairs p)"
    unfolding r(4,5) by (simp add: add.commute)
  then show ?thesis
    using r ChkPage_wf [OF r(2)] ChkPage_wf [OF r(3)] by (simp add: goes_new_def [abs_def])
qed

theorem SplPage_redistributes_witness:
  "wf_page (page_of [([97], [1]), ([98], [2])]) \<and>
   (\<exists>p' newPag. SplPage (page_of [([97], [1]), ([98], [2])]) 1 = Some (p', newPag) \<and>
      pairs newPag = [([97], [1])] \<and> pairs p' = [([98], [2])] \<and>
      ChkPage p' = Some True \<and> ChkPage newPag = Some True)"
proof -
  have w: "wf_page (page_of [([97], [1]), ([98], [2])])"
    and p: "pairs (page_of [([97], [1]), ([98], [2])]) = [([97], [1]), ([98], [2])]"
    using page_of_wf [of "[([97], [1]), ([98], [2])]"] by (simp_all add: used_def)
  have "\<exists>p' newPag. SplPage (page_of [([97], [1]), ([98], [2])]) 1 = Some (p', newPag) \<and>
      pairs newPag = [([97], [1])] \<and> pairs p' = [([98], [2])] \<and>
      ChkPage p' = Some True \<and> ChkPage newPag = Some True \<and>
      wf_page p' \<and> wf_page newPag \<and>
      mset (pairs p') + mset (pairs newPag) = mset [([97], [1]), ([98], [2])]"
    using SplPage_redistributes [OF w, of 1] by (simp add: p exHash_def Hash_def)
  then show ?thesis using w by blast
qed

subsection \<open>Deleting a pair\<close>

lemma nth_copy_at':
  "x < length buf \<Longrightarrow>
   copy_at buf off src ! x = (if off \<le> x \<and> x < off + length src then src ! (x - off) else buf ! x)"
  by (auto simp: copy_at_def nth_append)

lemma ino_update2_other:
  "t \<noteq> i \<Longrightarrow> ino (q[i * 2 := a, i * 2 + 1 := b]) t = ino q t"
  by (intro ino_cong) (simp_all add: nth_list_update) 

lemma DelPair_shift_spec:
  "length q = 1024 \<Longrightarrow> n \<le> 510 \<Longrightarrow> 1 \<le> i \<Longrightarrow> i < n \<Longrightarrow>
   \<exists>q'. DelPair_shift q i n zoo = Some q' \<and> length q' = 1024 \<and>
     (\<forall>x<1024. x < 2 * i \<or> 2 * (n - 1) \<le> x \<longrightarrow> q' ! x = q ! x) \<and>
     (\<forall>t. i \<le> t \<and> t < n - 1 \<longrightarrow> ino q' t = (ino q (t + 2) + nat (zoo mod 65536)) mod 65536)"
proof (induction "n - 1 - i" arbitrary: i q)
  case 0
  then have ni: "\<not> int i < int n - 1" and ni': "\<not> i < n - 1" by linarith+
  have "DelPair_shift q i n zoo = Some q" using ni by (subst DelPair_shift.simps) simp
  moreover have "\<forall>t. i \<le> t \<and> t < n - 1 \<longrightarrow> ino q t = (ino q (t + 2) + nat (zoo mod 65536)) mod 65536"
    using ni' by auto
  ultimately show ?case using "0.prems" by auto
next
  case (Suc d)
  then have i: "i < n - 1" by linarith
  define z where "z = nat (zoo mod 65536)"
  define w where "w = (ino q (i + 2) + z) mod 65536"
  define q1 where "q1 = q[i * 2 := word_of_nat (w mod 256), i * 2 + 1 := word_of_nat (w div 256 mod 256)]"
  have g: "getIno q (i + 2) = Some (ino q (i + 2))"
    using i Suc.prems by (simp add: getIno_ino)
  have s: "setIno q i ((ino q (i + 2) + z) mod 65536) = Some q1"
    using i Suc.prems by (simp add: setIno_def q1_def w_def PBLKSIZ_def)
  have ii: "int i < int n - 1" using i by linarith
  have st: "DelPair_shift q i n zoo = DelPair_shift q1 (i + 1) n zoo"
    using ii g s by (subst DelPair_shift.simps) (simp add: z_def [symmetric])
  have l1: "length q1 = 1024" using Suc.prems by (simp add: q1_def)
  have "n - 1 - (i + 1) = d" using Suc.hyps(2) by simp
  moreover have "1 \<le> i + 1" "i + 1 < n" using i by simp_all
  ultimately have "\<exists>q'. DelPair_shift q1 (i + 1) n zoo = Some q' \<and> length q' = 1024 \<and>
     (\<forall>x<1024. x < 2 * (i + 1) \<or> 2 * (n - 1) \<le> x \<longrightarrow> q' ! x = q1 ! x) \<and>
     (\<forall>t. i + 1 \<le> t \<and> t < n - 1 \<longrightarrow> ino q' t = (ino q1 (t + 2) + nat (zoo mod 65536)) mod 65536)"
    using Suc.hyps(1) [of "i + 1" q1] l1 Suc.prems(2) by blast
  then obtain q' where q': "DelPair_shift q1 (i + 1) n zoo = Some q'" "length q' = 1024"
    "\<forall>x<1024. x < 2 * (i + 1) \<or> 2 * (n - 1) \<le> x \<longrightarrow> q' ! x = q1 ! x"
    "\<forall>t. i + 1 \<le> t \<and> t < n - 1 \<longrightarrow> ino q' t = (ino q1 (t + 2) + z) mod 65536"
    unfolding z_def by blast
  have a: "\<forall>x<1024. x < 2 * i \<or> 2 * (n - 1) \<le> x \<longrightarrow> q' ! x = q ! x"
  proof (intro allI impI)
    fix x assume x: "x < 1024" "x < 2 * i \<or> 2 * (n - 1) \<le> x"
    then have "q' ! x = q1 ! x" using q'(3) by auto
    moreover have "q1 ! x = q ! x" using x i by (auto simp: q1_def)
    ultimately show "q' ! x = q ! x" by simp
  qed
  have b: "\<forall>t. i \<le> t \<and> t < n - 1 \<longrightarrow> ino q' t = (ino q (t + 2) + z) mod 65536"
  proof (intro allI impI)
    fix t assume t: "i \<le> t \<and> t < n - 1"
    show "ino q' t = (ino q (t + 2) + z) mod 65536"
    proof (cases "t = i")
      case True
      have "ino q' i = ino q1 i"
        using q'(3) Suc.prems i by (intro ino_cong) simp_all
      moreover have "ino q1 i = w"
        unfolding q1_def using ino_set [of i q w] Suc.prems i by (simp add: w_def)
      ultimately show ?thesis by (simp add: True w_def)
    next
      case False
      then have "ino q' t = (ino q1 (t + 2) + z) mod 65536" using q'(4) t by simp
      moreover have "ino q1 (t + 2) = ino q (t + 2)"
        unfolding q1_def using t by (intro ino_update2_other) simp
      ultimately show ?thesis by simp
    qed
  qed
  show ?case using st q'(1,2) a b unfolding z_def by auto
qed

lemma slice_shift_eqI:
  assumes "a + z + n \<le> length q" "a + n \<le> length p"
    and "\<And>x. a \<le> x \<Longrightarrow> x < a + n \<Longrightarrow> q ! (x + z) = p ! x"
  shows "take n (drop (a + z) q) = take n (drop a p)"
proof (rule nth_equalityI)
  show "length (take n (drop (a + z) q)) = length (take n (drop a p))"
    using assms(1,2) by simp
next
  fix i assume "i < length (take n (drop (a + z) q))"
  then have i: "i < n" by simp
  have "q ! (a + z + i) = p ! (a + i)"
    using assms(3) [of "a + i"] i by (simp add: add.commute add.left_commute)
  then show "take n (drop (a + z) q) ! i = take n (drop a p) ! i"
    using i assms(1,2) by simp
qed

lemma pair_at_shiftI:
  assumes e: "endo q j = endo p j' + z" and k: "koff q j = koff p j' + z" and v: "voff q j = voff p j' + z"
    and b: "endo p j' + z \<le> length q" "endo p j' \<le> length p" "voff p j' \<le> koff p j'" "koff p j' \<le> endo p j'"
    and d: "\<And>x. voff p j' \<le> x \<Longrightarrow> x < endo p j' \<Longrightarrow> q ! (x + z) = p ! x"
  shows "pair_at q j = pair_at p j'"
proof -
  have "take (endo p j' - koff p j') (drop (koff p j' + z) q) = take (endo p j' - koff p j') (drop (koff p j') p)"
    using b d by (intro slice_shift_eqI) simp_all
  moreover have "take (koff p j' - voff p j') (drop (voff p j' + z) q) = take (koff p j' - voff p j') (drop (voff p j') p)"
    using b d by (intro slice_shift_eqI) simp_all
  ultimately show ?thesis by (simp add: pair_at_def e k v)
qed

lemma wf_ino_le:
  assumes wf: "wf_page p" and s: "2 * j \<le> s" "s \<le> 2 * npairs p" and j: "j \<le> npairs p"
  shows "ino p s \<le> endo p j"
proof (cases "even s")
  case True
  then obtain t where t: "s = 2 * t" by (auto elim: evenE)
  show ?thesis
  proof (cases "t = 0")
    case True
    then have "j = 0" using s t by simp
    then show ?thesis using True t wf_even [OF wf] wf_bottom [OF wf] wf_endo_mono [OF wf, of "npairs p" 0]
      by (simp add: endo_def) 
  next
    case False
    then have "ino p s = endo p t" by (simp add: endo_def t)
    then show ?thesis using wf_endo_mono [OF wf, of t j] s t by simp
  qed
next
  case False
  then obtain t where t: "s = 2 * t + 1" by (auto elim: oddE)
  then have tj: "j \<le> t" "t < npairs p" using s by simp_all
  have "ino p s = koff p t" by (simp add: koff_def t)
  then show ?thesis using wf_pair [OF wf tj(2)] wf_endo_mono [OF wf, of t j] tj by simp
qed

lemma DelPair_absent:
  assumes wf: "wf_page p" and nf: "first_match key (pairs p) = None"
  shows "DelPair p key = Some (p, False)"
  by (simp add: DelPair_def getN_def getIno_ino seePair_wf [OF wf] nf)

lemma DelPair_last:
  assumes wf: "wf_page p" and fm: "first_match key (pairs p) = Some d" and last: "Suc d = npairs p"
  shows "\<exists>p'. DelPair p key = Some (p', True) \<and> wf_page p' \<and> pairs p' = take d (pairs p)"
proof -
  define n where "n = ino p 0"
  have n: "n = 2 * d + 2" using wf_even [OF wf] last by (simp add: n_def)
  have d: "d \<le> 254" using wf_npairs_le [OF wf] last by simp
  have len: "length p = 1024" using wf_len [OF wf] .
  define p2 where "p2 = p[0 := word_of_nat ((2 * d) mod 256), 1 := word_of_nat ((2 * d) div 256 mod 256)]"
  have cnt: "(n + 65536 - 2) mod 65536 = 2 * d" using n d by simp
  have sp: "seePair p n key = Some (2 * d + 1)"
    unfolding n_def using seePair_wf [OF wf, of key] fm by simp
  have gn: "getIno p 0 = Some n" by (simp add: getIno_ino n_def)
  have cond: "\<not> int (2 * d + 1) < int n - 1" "n \<noteq> 0" using n by simp_all
  have sn: "setIno p 0 (2 * d) = Some p2" by (simp add: setIno_def PBLKSIZ_def p2_def)
  have del: "DelPair p key = Some (p2, True)"
    using cond cnt sn
    by (simp add: DelPair_def getN_def gn sp setN_def)
  have l2: "length p2 = 1024" by (simp add: p2_def len)
  have n2: "ino p2 0 = 2 * d"
    unfolding p2_def using ino_set [of 0 p "2 * d"] d len by simp
  have same: "\<And>x. 2 \<le> x \<Longrightarrow> p2 ! x = p ! x" by (simp add: p2_def)
  have inos: "\<And>t. 1 \<le> t \<Longrightarrow> ino p2 t = ino p t"
    by (intro ino_cong same) simp_all
  have np2: "npairs p2 = d" by (simp add: npairs_def n2)
  have endo2: "\<And>j. endo p2 j = endo p j" using inos by (simp add: endo_def)
  have koff2: "\<And>j. koff p2 j = koff p j" using inos by (simp add: koff_def)
  have voff2: "\<And>j. voff p2 j = voff p j" using inos by (simp add: voff_def)
  have pa: "pair_at p2 j = pair_at p j" if j: "j < d" for j
  proof (rule pair_at_eqI)
    show "length p2 = length p" by (simp add: l2 len)
    show "endo p2 j = endo p j" "koff p2 j = koff p j" "voff p2 j = voff p j"
      by (simp_all add: endo2 koff2 voff2)
    show "endo p j \<le> length p" using wf_endo_le [OF wf, of j] j last by (simp add: len)
    show "voff p j \<le> koff p j" "koff p j \<le> endo p j"
      using wf_pair [OF wf, of j] j last by (simp_all add: voff_endo)
    fix x assume x: "voff p j \<le> x" "x < endo p j"
    have "4 * npairs p + 2 \<le> voff p j"
      using wf_endo_ge [OF wf, of "Suc j"] j last by (simp add: voff_endo)
    then show "p2 ! x = p ! x" using x by (intro same) simp
  qed
  have prs: "pairs p2 = take d (pairs p)"
  proof (rule nth_equalityI)
    show "length (pairs p2) = length (take d (pairs p))" using last by (simp add: np2)
  next
    fix j assume "j < length (pairs p2)"
    then have j: "j < d" by (simp add: np2)
    then show "pairs p2 ! j = take d (pairs p) ! j"
      using pa [OF j] last by (simp add: nth_pairs np2)
  qed
  have wf2: "wf_page p2"
    unfolding wf_page_def
  proof (intro conjI)
    show "length p2 = PBLKSIZ" by (simp add: l2 PBLKSIZ_def)
    show "even (ino p2 0)" by (simp add: n2)
    show "ino p2 0 * 2 + 2 \<le> endo p2 (npairs p2)"
      using wf_endo_ge [OF wf, of d] last by (simp add: n2 np2 endo2)
    show "list_all (\<lambda>j. voff p2 j \<le> koff p2 j \<and> koff p2 j \<le> endo p2 j) [0..<npairs p2]"
      unfolding list_all_iff np2 endo2 koff2 voff2
    proof
      fix j assume "j \<in> set [0..<d]"
      then have "j < npairs p" using last by simp
      from wf_pair [OF wf this] show "voff p j \<le> koff p j \<and> koff p j \<le> endo p j"
        by (simp add: voff_endo)
    qed
  qed
  show ?thesis using del wf2 prs by blast
qed

lemma DelPair_first:
  assumes wf: "wf_page p" and fm: "first_match key (pairs p) = Some 0" and m2: "2 \<le> npairs p"
  shows "\<exists>p'. DelPair p key = Some (p', True) \<and> wf_page p' \<and> pairs p' = drop 1 (pairs p)"
proof -
  define m where "m = npairs p"
  define n where "n = ino p 0"
  define src where "src = endo p 1"
  define bot where "bot = endo p m"
  define z where "z = 1024 - src"
  define mb where "mb = src - bot"
  have n: "n = 2 * m" using wf_even [OF wf] by (simp add: n_def m_def)
  have m: "2 \<le> m" "m \<le> 255" using m2 wf_npairs_le [OF wf] by (simp_all add: m_def)
  have len: "length p = 1024" using wf_len [OF wf] .
  have b: "bot \<le> src" "src \<le> 1024" "4 * m + 2 \<le> bot"
    using wf_endo_mono [OF wf, of m 1] wf_endo_le [OF wf, of 1] wf_bottom [OF wf] m
    by (simp_all add: bot_def src_def m_def)
  have zb: "src + z = 1024" "bot + mb = src" using b by (simp_all add: z_def mb_def)
  have sp: "seePair p n key = Some 1"
    unfolding n_def using seePair_wf [OF wf, of key] fm by simp
  have gn: "getIno p 0 = Some n" by (simp add: getIno_ino n_def)
  have g2: "getIno p (Suc (Suc 0)) = Some src"
    by (simp add: getIno_ino src_def endo_def numeral_2_eq_2)
  have gb: "getIno p n = Some bot" using n m by (simp add: getIno_ino bot_def endo_def)
  have cond: "int 1 < int n - 1" "n \<noteq> 0" using n m by simp_all
  have mbe: "int ((src + 65536 - bot) mod 65536) = int mb"
  proof -
    have "src + 65536 - bot = 65536 + mb" using b by (simp add: mb_def)
    moreover have "mb < 65536" using b by (simp add: mb_def)
    ultimately show ?thesis by simp
  qed
  define moved where "moved = take (1024 - bot) (drop bot p)"
  define p' where "p' = copy_at p (1024 - mb) moved"
  have e0: "int PBLKSIZ - int mb = int (1024 - mb)"
    using b zb by (simp add: PBLKSIZ_def)
  obtain s1v where s1: "go_slice p (int (1024 - mb)) (int (length p)) = Some s1v"
    by (simp add: go_slice_def len)
  have i1: "int src - int mb = int bot" using zb by linarith
  have s2: "go_slice p (int bot) (int (length p)) = Some moved"
    using b by (simp add: go_slice_def len moved_def)
  have c1: "go_copy p (int (1024 - mb)) moved = Some p'"
    by (simp add: go_copy_def len p'_def)
  have lp': "length p' = 1024" by (simp add: p'_def len)
  have zi: "int PBLKSIZ - int src = int z" using b by (simp add: z_def PBLKSIZ_def)
  have nz: "nat (int z mod 65536) = z" using b by (simp add: z_def)
  from DelPair_shift_spec [of p' n 1 "int z"] lp' n m
  obtain q where q: "DelPair_shift p' 1 n (int z) = Some q" "length q = 1024"
    "\<forall>x<1024. x < 2 \<or> 2 * (n - 1) \<le> x \<longrightarrow> q ! x = p' ! x"
    "\<forall>t. 1 \<le> t \<and> t < n - 1 \<longrightarrow> ino q t = (ino p' (t + 2) + z) mod 65536"
    unfolding nz by auto
  have e: "1024 - mb = bot + z" using b zb by linarith
  have p'lo: "\<And>x. x < bot + z \<Longrightarrow> p' ! x = p ! x"
  proof -
    fix x assume x: "x < bot + z"
    then have "x < 1024" using zb b by linarith
    then show "p' ! x = p ! x" using x by (simp add: p'_def nth_copy_at' len e)
  qed
  have p'hi: "\<And>x. bot + z \<le> x \<Longrightarrow> x < 1024 \<Longrightarrow> p' ! x = p ! (x - z)"
  proof -
    fix x assume x: "bot + z \<le> x" "x < 1024"
    have lm: "length moved = 1024 - bot" by (simp add: moved_def len)
    have "x < bot + z + length moved" using x b by (simp add: lm)
    then have "p' ! x = moved ! (x - (bot + z))"
      using x by (simp add: p'_def nth_copy_at' len e)
    also have "\<dots> = p ! (bot + (x - (bot + z)))"
      using x b by (simp add: moved_def len)
    also have "bot + (x - (bot + z)) = x - z" using x by simp
    finally show "p' ! x = p ! (x - z)" .
  qed
  have q01: "ino q 0 = n"
  proof -
    have "ino q 0 = ino p' 0" using q(3) by (intro ino_cong) simp_all
    also have "\<dots> = ino p 0" using b by (intro ino_cong p'lo) simp_all
    finally show ?thesis by (simp add: n_def)
  qed
  have gq: "getIno q 0 = Some n" by (simp add: getIno_ino q01)
  have cnt: "(n + 65536 - 2) mod 65536 = 2 * (m - 1)"
  proof -
    obtain e where e: "m = Suc e" using m by (cases m) simp_all
    have "2 * Suc e + 65536 - 2 = 65536 + 2 * e" by simp
    moreover have "2 * e < 65536" using e m by linarith
    ultimately show ?thesis unfolding n e by simp
  qed
  define p2 where "p2 = q[0 := word_of_nat ((2 * (m - 1)) mod 256), 1 := word_of_nat ((2 * (m - 1)) div 256 mod 256)]"
  have sn: "setIno q 0 (2 * (m - 1)) = Some p2" by (simp add: setIno_def PBLKSIZ_def p2_def)
  have del: "DelPair p key = Some (p2, True)"
    using cond g2 gb mbe e0 s1 i1 s2 c1 zi q(1) gq cnt sn
    by (simp add: DelPair_def getN_def gn sp setN_def Let_def)
  have l2: "length p2 = 1024" by (simp add: p2_def q(2))
  have n2: "ino p2 0 = 2 * (m - 1)"
    unfolding p2_def using ino_set [of 0 q "2 * (m - 1)"] m q(2) by simp
  have np2: "npairs p2 = m - 1" by (simp add: npairs_def n2)
  have inos: "ino p2 t = ino p (t + 2) + z" if t: "1 \<le> t" "t \<le> 2 * (m - 1)" for t
  proof -
    have "ino p2 t = ino q t" using t by (intro ino_cong) (simp_all add: p2_def)
    also have "\<dots> = (ino p' (t + 2) + z) mod 65536" using q(4) t n m by simp
    also have "ino p' (t + 2) = ino p (t + 2)" using b t m by (intro ino_cong p'lo) simp_all
    also have "(ino p (t + 2) + z) mod 65536 = ino p (t + 2) + z"
    proof -
      have "ino p (t + 2) \<le> endo p 1"
        using wf_ino_le [OF wf, of 1 "t + 2"] t m by (simp add: m_def)
      then show ?thesis using zb by (simp add: src_def)
    qed
    finally show ?thesis .
  qed
  have hi: "p2 ! (x + z) = p ! x" if x: "bot \<le> x" "x < src" for x
  proof -
    have "p2 ! (x + z) = q ! (x + z)" using x b by (simp add: p2_def)
    also have "\<dots> = p' ! (x + z)" using q(3) x b zb n m by simp
    also have "\<dots> = p ! (x + z - z)" using x zb by (intro p'hi) simp_all
    finally show ?thesis by simp
  qed
  have endo2: "endo p2 j = endo p (Suc j) + z" if j: "j \<le> m - 1" for j
  proof (cases "j = 0")
    case True
    then show ?thesis using zb by (simp add: endo_def src_def PBLKSIZ_def)
  next
    case False
    then show ?thesis using inos [of "2 * j"] j by (simp add: endo_def)
  qed
  have koff2: "koff p2 j = koff p (Suc j) + z" if j: "j < m - 1" for j
    using inos [of "2 * j + 1"] j by (simp add: koff_def)
  have voff2: "voff p2 j = voff p (Suc j) + z" if j: "j < m - 1" for j
    using inos [of "2 * j + 2"] j by (simp add: voff_def)
  have pa: "pair_at p2 j = pair_at p (Suc j)" if j: "j < m - 1" for j
  proof (rule pair_at_shiftI [where z = z])
    have sj: "Suc j < npairs p" using j by (simp add: m_def)
    show "endo p2 j = endo p (Suc j) + z" using endo2 [of j] j by simp
    show "koff p2 j = koff p (Suc j) + z" using koff2 [OF j] .
    show "voff p2 j = voff p (Suc j) + z" using voff2 [OF j] .
    have es: "endo p (Suc j) \<le> src" using wf_endo_mono [OF wf, of "Suc j" 1] sj by (simp add: src_def)
    show "endo p (Suc j) + z \<le> length p2" using es zb by (simp add: l2)
    show "endo p (Suc j) \<le> length p" using es b by (simp add: len)
    show "voff p (Suc j) \<le> koff p (Suc j)" "koff p (Suc j) \<le> endo p (Suc j)"
      using wf_pair [OF wf sj] by (simp_all add: voff_endo)
    fix x assume x: "voff p (Suc j) \<le> x" "x < endo p (Suc j)"
    have "bot \<le> voff p (Suc j)"
      using wf_endo_mono [OF wf, of m "Suc (Suc j)"] sj by (simp add: voff_endo bot_def m_def)
    then show "p2 ! (x + z) = p ! x" using x es by (intro hi) simp_all
  qed
  have prs: "pairs p2 = drop 1 (pairs p)"
  proof (rule nth_equalityI)
    show "length (pairs p2) = length (drop 1 (pairs p))" by (simp add: np2 m_def)
  next
    fix j assume "j < length (pairs p2)"
    then have j: "j < m - 1" by (simp add: np2)
    then show "pairs p2 ! j = drop 1 (pairs p) ! j"
      using pa [OF j] by (simp add: nth_pairs np2 m_def)
  qed
  have wf2: "wf_page p2"
    unfolding wf_page_def
  proof (intro conjI)
    show "length p2 = PBLKSIZ" by (simp add: l2 PBLKSIZ_def)
    show "even (ino p2 0)" by (simp add: n2)
    have "endo p2 (m - 1) = bot + z" using endo2 [of "m - 1"] m by (simp add: bot_def)
    then show "ino p2 0 * 2 + 2 \<le> endo p2 (npairs p2)"
      using b by (simp add: n2 np2)
    show "list_all (\<lambda>j. voff p2 j \<le> koff p2 j \<and> koff p2 j \<le> endo p2 j) [0..<npairs p2]"
      unfolding list_all_iff np2
    proof
      fix j assume "j \<in> set [0..<m - 1]"
      then have j: "j < m - 1" by simp
      then have "Suc j < npairs p" by (simp add: m_def)
      from wf_pair [OF wf this] show "voff p2 j \<le> koff p2 j \<and> koff p2 j \<le> endo p2 j"
        using endo2 [of j] koff2 [OF j] voff2 [OF j] j by (simp add: voff_endo)
    qed
  qed
  show ?thesis using del wf2 prs by blast
qed

lemma DelPair_ends:
  assumes wf: "wf_page p" and fm: "first_match key (pairs p) = Some d"
    and ends: "d = 0 \<or> Suc d = npairs p"
  shows "\<exists>p'. DelPair p key = Some (p', True) \<and> wf_page p' \<and>
           pairs p' = take d (pairs p) @ drop (Suc d) (pairs p)"
proof (cases "Suc d = npairs p")
  case True
  from DelPair_last [OF wf fm True] True show ?thesis by simp
next
  case False
  then have d: "d = 0" using ends by simp
  have "d < npairs p" using first_match_Some [OF fm] by simp
  then have "2 \<le> npairs p" using False d by simp
  from DelPair_first [OF wf fm [unfolded d] this] d show ?thesis by simp
qed

subsection \<open>The directory and the trie walk\<close>

lemma same_but_dircache_refl [simp]: "same_but_dircache s s"
  by (simp add: same_but_dircache_def)

lemma same_but_dircache_trans:
  "same_but_dircache s s1 \<Longrightarrow> same_but_dircache s1 s2 \<Longrightarrow> same_but_dircache s s2"
  by (simp add: same_but_dircache_def)

lemma masks_nth: "h < 32 \<Longrightarrow> masks ! h = 2 ^ h - 1"
proof -
  have "list_all (\<lambda>h. masks ! h = 2 ^ h - 1) [0..<32]"
    by (simp add: masks_def upt_rec [of _ "numeral _"] upt_rec [of _ "Suc _"])
  then show "h < 32 \<Longrightarrow> masks ! h = 2 ^ h - 1"
    by (simp add: list_all_iff)
qed

lemma length_masks: "length masks = 32"
  by (simp add: masks_def)

lemma seekWrite_ok:
  "faults s = [] \<Longrightarrow> 0 \<le> off \<Longrightarrow>
   seekWrite s f off buf =
     (setf (s\<lparr>log := log s @ [EvSeek f off, EvWrite f (nat off) buf]\<rparr>) f
        \<lparr>fdata = write_at (fdata (getf s f)) (nat off) buf, fpos = nat off + length buf\<rparr>, None)"
  by (cases f) (simp_all add: seekWrite_def Seek_def Write_def syscall_def setf_def getf_def)

lemma seekRead_dir0:
  "faults s = [] \<Longrightarrow> DBLKSIZ \<le> length (fdata (dirf s)) \<Longrightarrow> length buf = DBLKSIZ \<Longrightarrow>
   seekRead s DirF 0 DBLKSIZ buf =
     (s\<lparr>dirf := \<lparr>fdata = fdata (dirf s), fpos = DBLKSIZ\<rparr>,
         log := log s @ [EvSeek DirF 0, EvRead DirF 0]\<rparr>, Inr (take DBLKSIZ (fdata (dirf s))))"
  by (auto simp: seekRead_def Seek_def Read_def syscall_def setf_def getf_def Let_def DBLKSIZ_def)

lemma dir0_cong: "fdata (dirf s') = fdata (dirf s) \<Longrightarrow> dir0 s' = dir0 s"
  by (simp add: dir0_def)

lemma dbit0_cong: "fdata (dirf s') = fdata (dirf s) \<Longrightarrow> dbit0 s' c = dbit0 s c"
  by (simp add: dbit0_def dir0_def)

lemma dir_inv_cong:
  assumes "dir_inv s" "fdata (dirf s') = fdata (dirf s)" "maxbno s' = maxbno s"
    "length (dirbuf s') = DBLKSIZ" "dirbno s' = 0 \<longrightarrow> dirbuf s' = dir0 s"
    "fdata (dirf s) = [] \<longrightarrow> dirbno s' = 0"
  shows "dir_inv s'"
proof -
  have d: "dir0 s' = dir0 s" "dir_closed s' = dir_closed s"
    by (simp_all add: dir0_cong [OF assms(2)] dbit0_cong [OF assms(2)] dir_closed_def)
  show ?thesis
    using assms unfolding dir_inv_def d by auto
qed

lemma dir_load0:
  assumes inv: "dir_inv s" and nf: "faults s = []"
    and ok: "fdata (dirf s) \<noteq> [] \<or> dirbno s = 0"
  shows "\<exists>s'. dir_load s 0 = (s', None) \<and> dir_inv s' \<and> same_but_dircache s s' \<and>
           dirbno s' = 0 \<and> dirbuf s' = dir0 s \<and>
           (\<exists>evs. log s' = log s @ evs \<and> list_all (\<lambda>ev. ev = EvSeek DirF 0 \<or> ev = EvRead DirF 0) evs)"
proof (cases "dirbno s = 0")
  case True
  then have "dirbuf s = dir0 s" using inv by (simp add: dir_inv_def)
  then show ?thesis using True inv by (simp add: dir_load_def)
next
  case False
  then have ne: "fdata (dirf s) \<noteq> []" using ok by simp
  then have big: "DBLKSIZ \<le> length (fdata (dirf s))" using inv by (auto simp: dir_inv_def)
  have lb: "length (dirbuf s) = DBLKSIZ" using inv by (simp add: dir_inv_def)
  define s' where "s' = s\<lparr>dirf := \<lparr>fdata = fdata (dirf s), fpos = DBLKSIZ\<rparr>,
       log := log s @ [EvSeek DirF 0, EvRead DirF 0],
       dirbuf := take DBLKSIZ (fdata (dirf s)), dirbno := 0\<rparr>"
  have d0: "dir0 s = take DBLKSIZ (fdata (dirf s))" using ne by (simp add: dir0_def)
  have "dir_load s 0 = (s', None)"
    using False seekRead_dir0 [OF nf big lb] by (simp add: dir_load_def offDir_def s'_def)
  moreover have "same_but_dircache s s'"
    by (simp add: same_but_dircache_def s'_def writes_def)
  moreover have "dir_inv s'"
    using ne big by (intro dir_inv_cong [OF inv]) (simp_all add: s'_def d0)
  moreover have "dirbno s' = 0" "dirbuf s' = dir0 s" by (simp_all add: s'_def d0)
  moreover have "\<exists>evs. log s' = log s @ evs \<and> list_all (\<lambda>ev. ev = EvSeek DirF 0 \<or> ev = EvRead DirF 0) evs"
    by (simp add: s'_def)
  ultimately show ?thesis by blast
qed

lemma getDBit_spec:
  assumes inv: "dir_inv s" and nf: "faults s = []" and c: "c < maxbno s" "c < DBLKSIZ * BITSIZ"
  shows "\<exists>s'. getDBit s c = (s', dbit0 s c) \<and> dir_inv s' \<and> same_but_dircache s s' \<and> dirbno s' = 0"
proof -
  have blk: "c div BITSIZ div DBLKSIZ = 0" "c div BITSIZ mod DBLKSIZ = c div BITSIZ"
    using c by (simp_all add: BITSIZ_def DBLKSIZ_def)
  have "fdata (dirf s) \<noteq> [] \<or> dirbno s = 0" using inv by (auto simp: dir_inv_def DBLKSIZ_def)
  from dir_load0 [OF inv nf this]
  obtain s' where s': "dir_load s 0 = (s', None)" "dir_inv s'" "same_but_dircache s s'"
    "dirbno s' = 0" "dirbuf s' = dir0 s" by blast
  have "getDBit s c = (s', dbit0 s c)"
    by (simp add: getDBit_def Let_def blk s' dbit0_def)
  then show ?thesis using s' by blast
qed

lemma dbit0_bit: "dbit0 s c = bit (dir0 s ! (c div 8)) (c mod 8)"
  by (simp add: dbit0_def BITSIZ_def bit_iff_and_push_bit_not_eq_0)

lemma dir_closed_iff:
  "dir_closed s \<longleftrightarrow> (\<forall>c. 0 < c \<and> c < 32768 \<and> dbit0 s c \<longrightarrow> dbit0 s ((c - 1) div 2))"
  by (auto simp: dir_closed_def list_all_iff DBLKSIZ_def BITSIZ_def)

lemma length_dir0 [simp]: "DBLKSIZ \<le> length (fdata (dirf s)) \<or> fdata (dirf s) = [] \<Longrightarrow> length (dir0 s) = DBLKSIZ"
  by (auto simp: dir0_def)

lemma bit_set_byte:
  fixes w :: byte
  assumes "m < 8" "n < 8"
  shows "bit (w OR push_bit m 1) n \<longleftrightarrow> bit w n \<or> n = m"
  using assms by (auto simp: bit_or_iff bit_exp_iff possible_bit_word)

lemma setDBit_spec:
  assumes inv: "dir_inv s" and nf: "faults s = []" and c: "c < DBLKSIZ * BITSIZ"
    and par: "c = 0 \<or> dbit0 s ((c - 1) div 2)"
  shows "\<exists>s'. setDBit s c = (s', None) \<and> dir_inv s' \<and> faults s' = [] \<and>
           (\<forall>c'<32768. dbit0 s' c' = (c' = c \<or> dbit0 s c')) \<and>
           c < maxbno s' \<and> maxbno s \<le> maxbno s' \<and>
           pagf s' = pagf s \<and> rdonly s' = rdonly s \<and> curbit s' = curbit s \<and>
           hmask s' = hmask s \<and> blkptr s' = blkptr s \<and> keyptr s' = keyptr s \<and>
           pagbno s' = pagbno s \<and> pag s' = pag s"
proof -
  have c': "c < 32768" using c by (simp add: DBLKSIZ_def BITSIZ_def)
  have blk: "c div BITSIZ div DBLKSIZ = 0" "c div BITSIZ mod DBLKSIZ = c div 8" "c mod BITSIZ = c mod 8"
    "c div 8 < 4096"
    using c' by (simp_all add: BITSIZ_def DBLKSIZ_def)
  have lb: "length (dirbuf s) = DBLKSIZ" using inv by (simp add: dir_inv_def)
  have fresh: "fdata (dirf s) = [] \<Longrightarrow> dirbno s = 0 \<and> maxbno s = 0" using inv by (auto simp: dir_inv_def DBLKSIZ_def)
  have nonfresh: "fdata (dirf s) \<noteq> [] \<Longrightarrow> DBLKSIZ \<le> length (fdata (dirf s)) \<and> DBLKSIZ * BITSIZ \<le> maxbno s"
    using inv by (auto simp: dir_inv_def)
  have l0: "length (dir0 s) = DBLKSIZ" using nonfresh by (cases "fdata (dirf s) = []") simp_all
  have "fdata (dirf s) \<noteq> [] \<or> dirbno s = 0" using fresh by auto
  from dir_load0 [OF inv nf this]
  obtain s2 where s2: "dir_load s 0 = (s2, None)" and s2i: "dir_inv s2" "same_but_dircache s s2"
    and s2d: "dirbno s2 = 0" "dirbuf s2 = dir0 s" by blast
  have s2p: "faults s2 = []" "fdata (dirf s2) = fdata (dirf s)"
      "maxbno s2 = maxbno s" "pagf s2 = pagf s" "rdonly s2 = rdonly s" "curbit s2 = curbit s"
      "hmask s2 = hmask s" "blkptr s2 = blkptr s" "keyptr s2 = keyptr s" "pagbno s2 = pagbno s" "pag s2 = pag s"
    using s2i(2) nf by (simp_all add: same_but_dircache_def)
  define buf where "buf = (dir0 s)[c div 8 := (dir0 s ! (c div 8)) OR push_bit (c mod 8) 1]"
  define mb where "mb = (if c \<ge> maxbno s then maxbno s + DBLKSIZ * BITSIZ else maxbno s)"
  define s4 where "s4 = (if c \<ge> maxbno s then s2\<lparr>dirbuf := buf, maxbno := maxbno s + DBLKSIZ * BITSIZ\<rparr>
                         else s2\<lparr>dirbuf := buf\<rparr>)"
  have s4p: "dirbuf s4 = buf" "maxbno s4 = mb" "faults s4 = faults s2" "dirf s4 = dirf s2"
    "pagf s4 = pagf s2" "rdonly s4 = rdonly s2" "curbit s4 = curbit s2" "hmask s4 = hmask s2"
    "blkptr s4 = blkptr s2" "keyptr s4 = keyptr s2" "pagbno s4 = pagbno s2" "pag s4 = pag s2"
    "dirbno s4 = dirbno s2" "log s4 = log s2"
    using s2p by (simp_all add: s4_def mb_def)
  define s' where "s' = setf (s4\<lparr>log := log s4 @ [EvSeek DirF 0, EvWrite DirF 0 buf]\<rparr>) DirF
        \<lparr>fdata = write_at (fdata (dirf s)) 0 buf, fpos = length buf\<rparr>"
  have lbuf: "length buf = DBLKSIZ" by (simp add: buf_def l0)
  have sw: "seekWrite s4 DirF 0 buf = (s', None)"
    using seekWrite_ok [of s4 0 DirF buf] s2p s4p by (simp add: s'_def getf_def)
  have set: "setDBit s c = (s', None)"
    using sw s2p s2d
    by (auto simp: setDBit_def Let_def s2 blk offDir_def buf_def s4_def)
  have data': "fdata (dirf s') = buf @ drop DBLKSIZ (fdata (dirf s))"
    by (simp add: s'_def setf_def write_at_def lbuf)
  have d0': "dir0 s' = buf"
    using lbuf by (simp add: dir0_def data') (auto simp: DBLKSIZ_def)
  have bits: "dbit0 s' x = (x = c \<or> dbit0 s x)" if x: "x < 32768" for x
  proof (cases "x div 8 = c div 8")
    case True
    have "x = c \<longleftrightarrow> x mod 8 = c mod 8" using True by (metis div_mult_mod_eq)
    then show ?thesis
      using True blk l0 bit_set_byte [of "c mod 8" "x mod 8" "dir0 s ! (c div 8)"]
      by (auto simp: dbit0_bit d0' buf_def DBLKSIZ_def)
  next
    case False
    then have "x \<noteq> c" by auto
    then show ?thesis using False by (simp add: dbit0_bit d0' buf_def)
  qed
  have closed: "dir_closed s'"
    unfolding dir_closed_iff
  proof (intro allI impI)
    fix x assume x: "0 < x \<and> x < 32768 \<and> dbit0 s' x"
    then have px: "(x - 1) div 2 < 32768" by linarith
    have "dbit0 s ((x - 1) div 2)"
    proof (cases "x = c")
      case True
      then show ?thesis using par x by simp
    next
      case False
      then have "dbit0 s x" using x bits [of x] by simp
      moreover have "dir_closed s" using inv by (simp add: dir_inv_def)
      ultimately show ?thesis using x unfolding dir_closed_iff by blast
    qed
    then show "dbit0 s' ((x - 1) div 2)" using bits [OF px] by simp
  qed
  have mb: "c < mb" "maxbno s \<le> mb" "DBLKSIZ * BITSIZ \<le> mb"
    using c fresh nonfresh by (cases "fdata (dirf s) = []"; simp add: mb_def)+
  have inv': "dir_inv s'"
    unfolding dir_inv_def
  proof (intro conjI)
    show "length (dirbuf s') = DBLKSIZ" by (simp add: s'_def s4p setf_def lbuf)
    show "fdata (dirf s') = [] \<and> maxbno s' = 0 \<and> dirbno s' = 0 \<or>
          DBLKSIZ \<le> length (fdata (dirf s')) \<and> DBLKSIZ * BITSIZ \<le> maxbno s'"
      using mb by (simp add: data' lbuf) (simp add: s'_def s4p setf_def)
    show "dirbno s' = 0 \<longrightarrow> dirbuf s' = dir0 s'"
      by (simp add: d0') (simp add: s'_def s4p setf_def)
    show "dir_closed s'" by (rule closed)
  qed
  have rest: "faults s' = []" "maxbno s' = mb" "pagf s' = pagf s" "rdonly s' = rdonly s"
    "curbit s' = curbit s" "hmask s' = hmask s" "blkptr s' = blkptr s" "keyptr s' = keyptr s"
    "pagbno s' = pagbno s" "pag s' = pag s"
    using s2p s2d by (simp_all add: s'_def s4p setf_def)
  show ?thesis
    using set inv' rest bits mb by auto
qed

lemma trie_node_Suc_gt: "trie_node hash h < trie_node hash (Suc h)"
  by simp

lemma trie_node_mono: "h \<le> h' \<Longrightarrow> trie_node hash h \<le> trie_node hash h'"
proof (induction h')
  case 0
  then show ?case by simp
next
  case (Suc h')
  then show ?case
    using trie_node_Suc_gt [of hash h'] by (cases "h = Suc h'") (simp_all del: trie_node.simps)
qed

lemma trie_node_strict: "h < h' \<Longrightarrow> trie_node hash h < trie_node hash h'"
  using trie_node_mono [of "Suc h" h' hash] trie_node_Suc_gt [of hash h] by simp

lemma trie_node_inj: "trie_node hash h = trie_node hash h' \<Longrightarrow> h = h'"
  using trie_node_strict [of h h' hash] trie_node_strict [of h' h hash]
  by (cases h h' rule: linorder_cases) simp_all

lemma trie_node_parent: "(trie_node hash (Suc h) - 1) div 2 = trie_node hash h"
  by simp

lemma trie_node_ge: "2 ^ h \<le> trie_node hash h + 1"
  by (induction h) auto

lemma trie_node_depth: "trie_node hash h < 32768 \<Longrightarrow> h \<le> 15"
proof -
  assume "trie_node hash h < 32768"
  then have "(2::nat) ^ h < 2 ^ 15 + 1" using trie_node_ge [of h hash] by simp
  then have "(2::nat) ^ h \<le> 2 ^ 15" by simp
  then show "h \<le> 15" by (rule power_le_imp_le_exp [rotated]) simp
qed

lemma walk_ge: "getPage_walk hash s d0 h0 = (s', d, H) \<Longrightarrow> d0 \<le> d"
proof (induction hash s d0 h0 arbitrary: s' d H rule: getPage_walk.induct)
  case (1 hash s dbit hbit)
  show ?case
  proof (cases "dbit < maxbno s")
    case False
    then show ?thesis using "1.prems" by (simp add: getPage_walk.simps)
  next
    case True
    obtain s1 b where g: "getDBit s dbit = (s1, b)" by (cases "getDBit s dbit")
    show ?thesis
    proof (cases b)
      case False
      then show ?thesis using "1.prems" True g by (simp add: getPage_walk.simps)
    next
      case b: True
      have "(if hash AND push_bit hbit 1 \<noteq> 0 then 2 * dbit + 2 else 2 * dbit + 1) \<le> d"
        using "1.IH" [OF True g [symmetric], of s' d H] "1.prems" True g b
        by (simp add: getPage_walk.simps [of hash s])
      then show ?thesis by (simp split: if_splits)
    qed
  qed
qed

lemma trie_node_child:
  "(if hash AND push_bit h 1 \<noteq> 0 then 2 * trie_node hash h + 2 else 2 * trie_node hash h + 1)
     = trie_node hash (Suc h)"
  by simp

declare trie_node.simps(2) [simp del]

lemma walk_fwd:
  "dir_inv s \<Longrightarrow> faults s = [] \<Longrightarrow> h \<le> H \<Longrightarrow>
    (\<And>h'. h \<le> h' \<Longrightarrow> h' < H \<Longrightarrow> trie_node hash h' < maxbno s \<and> trie_node hash h' < 32768 \<and>
        dbit0 s (trie_node hash h')) \<Longrightarrow>
    (maxbno s \<le> trie_node hash H \<or> (trie_node hash H < 32768 \<and> \<not> dbit0 s (trie_node hash H))) \<Longrightarrow>
    \<exists>s'. getPage_walk hash s (trie_node hash h) h = (s', trie_node hash H, H) \<and>
         dir_inv s' \<and> same_but_dircache s s'"
proof (induction "H - h" arbitrary: h s)
  case 0
  then have h: "h = H" by simp
  show ?case
  proof (cases "trie_node hash H < maxbno s")
    case False
    then have "getPage_walk hash s (trie_node hash H) H = (s, trie_node hash H, H)"
      by (subst getPage_walk.simps) simp
    then show ?thesis using "0.prems"(1) same_but_dircache_refl [of s] unfolding h by blast
  next
    case True
    then have c: "trie_node hash H < DBLKSIZ * BITSIZ" "\<not> dbit0 s (trie_node hash H)"
      using "0.prems"(5) by (auto simp: DBLKSIZ_def BITSIZ_def)
    from getDBit_spec [OF "0.prems"(1) "0.prems"(2) True c(1)]
    obtain s' where s': "getDBit s (trie_node hash H) = (s', dbit0 s (trie_node hash H))"
      "dir_inv s'" "same_but_dircache s s'"
      by blast
    have "getPage_walk hash s (trie_node hash H) H = (s', trie_node hash H, H)"
      using True s'(1) c(2) by (subst getPage_walk.simps) simp
    then show ?thesis using s'(2,3) unfolding h by blast
  qed
next
  case (Suc n)
  then have h: "h < H" by simp
  have c: "trie_node hash h < maxbno s" "trie_node hash h < DBLKSIZ * BITSIZ" "dbit0 s (trie_node hash h)"
    using Suc.prems(4) [of h] h by (simp_all add: DBLKSIZ_def BITSIZ_def)
  from getDBit_spec [OF Suc.prems(1) Suc.prems(2) c(1) c(2)]
  obtain s1 where s1': "getDBit s (trie_node hash h) = (s1, dbit0 s (trie_node hash h))"
    and s1i: "dir_inv s1" "same_but_dircache s s1"
    by blast
  have s1: "getDBit s (trie_node hash h) = (s1, True)" "dir_inv s1" "same_but_dircache s s1"
    using s1' s1i c(3) by simp_all
  have same: "maxbno s1 = maxbno s" "\<And>c. dbit0 s1 c = dbit0 s c" "faults s1 = []"
    using s1(3) Suc.prems(2) dbit0_cong [of s1 s] by (simp_all add: same_but_dircache_def)
  have n: "n = H - Suc h" using Suc.hyps(2) by simp
  have p1: "\<And>h'. Suc h \<le> h' \<Longrightarrow> h' < H \<Longrightarrow> trie_node hash h' < maxbno s1 \<and> trie_node hash h' < 32768 \<and>
        dbit0 s1 (trie_node hash h')"
    unfolding same using Suc.prems(4) by simp
  have p2: "maxbno s1 \<le> trie_node hash H \<or> (trie_node hash H < 32768 \<and> \<not> dbit0 s1 (trie_node hash H))"
    unfolding same using Suc.prems(5) .
  have hh: "Suc h \<le> H" using h by simp
  from Suc.hyps(1) [OF n s1(2) same(3) hh p1 p2]
  obtain s' where s': "getPage_walk hash s1 (trie_node hash (Suc h)) (Suc h) = (s', trie_node hash H, H)"
    "dir_inv s'" "same_but_dircache s1 s'" by blast
  have "getPage_walk hash s (trie_node hash h) h = (s', trie_node hash H, H)"
    using c(1) s1(1) s'(1) by (subst getPage_walk.simps) (simp add: trie_node.simps(2))
  then show ?case using s'(2) same_but_dircache_trans [OF s1(3) s'(3)] by blast
qed

lemma walk_bwd:
  "getPage_walk hash s d0 h0 = (s', d, H) \<Longrightarrow> d0 = trie_node hash h0 \<Longrightarrow> d < 32768 \<Longrightarrow>
   dir_inv s \<Longrightarrow> faults s = [] \<Longrightarrow>
   h0 \<le> H \<and> d = trie_node hash H \<and>
   (\<forall>h'. h0 \<le> h' \<and> h' < H \<longrightarrow> trie_node hash h' < maxbno s \<and> dbit0 s (trie_node hash h')) \<and>
   (maxbno s \<le> d \<or> \<not> dbit0 s d) \<and> dir_inv s' \<and> same_but_dircache s s'"
proof (induction hash s d0 h0 arbitrary: s' d H rule: getPage_walk.induct)
  case (1 hash s dbit hbit)
  show ?case
  proof (cases "dbit < maxbno s")
    case False
    then have "s' = s" "d = dbit" "H = hbit" using "1.prems"(1) by (simp_all add: getPage_walk.simps)
    then show ?thesis using False "1.prems"(2,4) by auto
  next
    case True
    have dd: "dbit \<le> d" using walk_ge [OF "1.prems"(1)] .
    then have d32: "dbit < DBLKSIZ * BITSIZ" using "1.prems"(3) by (simp add: DBLKSIZ_def BITSIZ_def)
    from getDBit_spec [OF "1.prems"(4) "1.prems"(5) True d32]
    obtain s1 where s1: "getDBit s dbit = (s1, dbit0 s dbit)" "dir_inv s1" "same_but_dircache s s1"
      by blast
    have same: "maxbno s1 = maxbno s" "\<And>c. dbit0 s1 c = dbit0 s c" "faults s1 = []"
      using s1(3) "1.prems"(5) dbit0_cong [of s1 s] by (simp_all add: same_but_dircache_def)
    show ?thesis
    proof (cases "dbit0 s dbit")
      case False
      then have "s' = s1" "d = dbit" "H = hbit"
        using "1.prems"(1) True s1(1) by (simp_all add: getPage_walk.simps)
      then show ?thesis using False "1.prems"(2) s1(2,3) by auto
    next
      case b: True
      have child: "(if hash AND push_bit hbit 1 \<noteq> 0 then 2 * dbit + 2 else 2 * dbit + 1) = trie_node hash (Suc hbit)"
        unfolding "1.prems"(2) by (rule trie_node_child)
      have rec: "getPage_walk hash s1 (if hash AND push_bit hbit 1 \<noteq> 0 then 2 * dbit + 2 else 2 * dbit + 1) (hbit + 1) = (s', d, H)"
        using "1.prems"(1) True s1(1) b
        by (simp add: getPage_walk.simps [of hash s])
      have ih: "Suc hbit \<le> H \<and> d = trie_node hash H \<and>
         (\<forall>h'. Suc hbit \<le> h' \<and> h' < H \<longrightarrow> trie_node hash h' < maxbno s1 \<and> dbit0 s1 (trie_node hash h')) \<and>
         (maxbno s1 \<le> d \<or> \<not> dbit0 s1 d) \<and> dir_inv s' \<and> same_but_dircache s1 s'"
      proof -
        have a2: "(s1, True) = getDBit s dbit" using s1(1) b by simp
        have a5: "(if hash AND push_bit hbit 1 \<noteq> 0 then 2 * dbit + 2 else 2 * dbit + 1) = trie_node hash (hbit + 1)"
          using child by simp
        from "1.IH" [OF True a2 refl rec a5 "1.prems"(3) s1(2) same(3)]
        show ?thesis unfolding Suc_eq_plus1 .
      qed
      have path: "\<forall>h'. hbit \<le> h' \<and> h' < H \<longrightarrow> trie_node hash h' < maxbno s \<and> dbit0 s (trie_node hash h')"
      proof (intro allI impI)
        fix h' assume h': "hbit \<le> h' \<and> h' < H"
        show "trie_node hash h' < maxbno s \<and> dbit0 s (trie_node hash h')"
        proof (cases "h' = hbit")
          case True
          then show ?thesis using \<open>dbit < maxbno s\<close> b "1.prems"(2) by simp
        next
          case False
          then have "Suc hbit \<le> h' \<and> h' < H" using h' by simp
          then show ?thesis using ih unfolding same by blast
        qed
      qed
      have "hbit \<le> H" using ih by simp
      moreover have "same_but_dircache s s'" using same_but_dircache_trans [OF s1(3)] ih by blast
      ultimately show ?thesis
        using ih path unfolding same by blast
    qed
  qed
qed

end
